theory Spec2Isabelle
  imports Main "HOL-Library.AList" "HOL-Library.Sublist"
begin

section \<open>JavaScript values\<close>

text \<open>
  The objects that \<^verbatim>\<open>RequestFactory.js\<close> builds and passes around are plain JavaScript
  objects. A value is either an object, with its own properties in insertion order and the
  flag that \<^verbatim>\<open>Object.freeze\<close> sets, or anything else (a primitive, or a host
  value this code never looks into), kept as an opaque label.
\<close>

datatype jsval =
    JPrim string
  | JObj "(string \<times> jsval) list" bool

text \<open>\<^verbatim>\<open>Object.freeze(o)\<close> is shallow: it marks \<open>o\<close> itself and leaves the values of its
  properties as they are.\<close>

fun freeze :: "jsval \<Rightarrow> jsval" where
  "freeze (JObj ps f) = JObj ps True"
| "freeze (JPrim s) = JPrim s"

fun isFrozen :: "jsval \<Rightarrow> bool" where
  "isFrozen (JObj ps f) = f"
| "isFrozen (JPrim s) = True"

fun ownKeys :: "jsval \<Rightarrow> string list" where
  "ownKeys (JObj ps f) = map fst ps"
| "ownKeys (JPrim s) = []"

fun getProperty :: "jsval \<Rightarrow> string \<Rightarrow> jsval option" where
  "getProperty (JObj ps f) k = map_of ps k"
| "getProperty (JPrim s) k = None"

text \<open>
  What a module can try on an object it holds: assign a property (which adds it when the
  key is new) or delete one. On a frozen object neither has an effect, and the object
  stays as it is; that is the result \<open>None\<close>. (Modules are ES modules, hence strict code:
  there a \<^verbatim>\<open>TypeError\<close> is raised as well, except by the \<^verbatim>\<open>delete\<close> of a property
  that the object does not have.)
\<close>

datatype mutation = Assign string jsval | Delete string

fun mutate :: "jsval \<Rightarrow> mutation \<Rightarrow> jsval option" where
  "mutate (JObj ps f) (Assign k v) = (if f then None else Some (JObj (AList.update k v ps) f))"
| "mutate (JObj ps f) (Delete k) = (if f then None else Some (JObj (AList.delete k ps) f))"
| "mutate (JPrim s) m = None"

text \<open>
  \<open>mutateAt o path m\<close> is the statement \<^verbatim>\<open>o.p1.p2...pn.k = v\<close> (or the \<^verbatim>\<open>delete\<close>
  of that property): the path is read, and only the object it ends in is written.
  Reading through a missing property raises and writes nothing, which is \<open>None\<close> again.
\<close>

fun mutateAt :: "jsval \<Rightarrow> string list \<Rightarrow> mutation \<Rightarrow> jsval option" where
  "mutateAt obj [] m = mutate obj m"
| "mutateAt (JObj ps f) (p # path) m =
     (case map_of ps p of
        None \<Rightarrow> None
      | Some child \<Rightarrow>
          (case mutateAt child path m of
             None \<Rightarrow> None
           | Some child' \<Rightarrow> Some (JObj (AList.update p child' ps) f)))"
| "mutateAt (JPrim s) (p # path) m = None"

section \<open>Requests, promises and modules\<close>

text \<open>
  The editor request (\<^verbatim>\<open>ArcEditorRequest\<close>) is a mutable object shared by the caller,
  the factory and the modules: \<open>id'\<close> is its \<^verbatim>\<open>id\<close> property, \<open>request\<close> the nested
  request data. Mutation is modelled by passing the request's current content along.
\<close>

record arcEditorRequest =
  id' :: string
  request :: jsval

text \<open>The options object of both entry points; \<open>None\<close> is a property left undefined.\<close>

record processOptions =
  evaluateVariables :: "bool option"

text \<open>
  What JavaScript code can throw is any value. The only thing this program does with a
  value it catches is read its \<^verbatim>\<open>message\<close> property into a template literal, so a
  thrown value is one of three kinds:
  \<^item> \<open>Error m\<close>: an object whose \<^verbatim>\<open>message\<close> reads as the text \<open>m\<close> (an
    \<^verbatim>\<open>Error\<close> object, or any object with such a property);
  \<^item> \<open>NoMessage\<close>: any other value but \<^verbatim>\<open>null\<close> and \<^verbatim>\<open>undefined\<close> (a string, a
    number, an object without that property): its \<^verbatim>\<open>message\<close> is \<^verbatim>\<open>undefined\<close>;
  \<^item> \<open>Nullish\<close>: \<^verbatim>\<open>null\<close> or \<^verbatim>\<open>undefined\<close>: reading a property of it raises a
    \<^verbatim>\<open>TypeError\<close>.
  A promise settles one way or the other; a rejection carries the value thrown.
\<close>

datatype thrown = Error string | NoMessage | Nullish

datatype 'a settled = Fulfilled 'a | Rejected thrown

text \<open>
  Every \<^verbatim>\<open>await\<close> of foreign code is a point where other code of the page runs. What
  that code can do to the factory through its public interface is call
  \<^verbatim>\<open>abort(id)\<close>; \<open>aborts\<close> lists the identifiers of those calls, in order, made while
  the promise is pending. \<open>leaves\<close> is the content of the request object when the promise
  settles (also when it rejects: what was written before the throw stays written).
  The awaits of the factory's own asynchronous functions are such points too; a call of
  \<^verbatim>\<open>abort\<close> landing there is counted with the pending period next to it, which changes
  the place of that call among the observations and nothing else.
\<close>

record 'a pending =
  aborts :: "string list"
  settles :: "'a settled"

record 'a run = "'a pending" +
  leaves :: arcEditorRequest

text \<open>
  A registered module: its declared permissions and its function. A request module is
  called as \<^verbatim>\<open>fn(request, context, signal)\<close>, a response module as
  \<^verbatim>\<open>fn(request, executed, response, context, signal)\<close>. The signal is handed over as
  the value of \<^verbatim>\<open>signal.aborted\<close> at the call. A module returns a number or nothing
  (\<open>None\<close>).
\<close>

record 'f registeredModule =
  permissions :: "string list"
  fn :: 'f

type_synonym requestFn = "arcEditorRequest \<Rightarrow> jsval \<Rightarrow> bool \<Rightarrow> int option run"
type_synonym responseFn = "arcEditorRequest \<Rightarrow> jsval \<Rightarrow> jsval \<Rightarrow> jsval \<Rightarrow> bool \<Rightarrow> int option run"

section \<open>The collaborators\<close>

text \<open>
  What \<^verbatim>\<open>RequestFactory.js\<close> imports and calls but this repository's sources do not
  hold is a parameter of the model:
  \<^item> \<open>Events\<close> and \<open>ArcModelEvents\<close>: the namespaces of arc-events and arc-models, as
    functions from an export's name to its value;
  \<^item> \<open>ABORT\<close>: the constant \<^verbatim>\<open>ExecutionResponse.ABORT\<close>;
  \<^item> \<open>typeErrorMessage\<close>: the message of the \<^verbatim>\<open>TypeError\<close> that the JavaScript engine
    raises when a property of \<^verbatim>\<open>null\<close> or \<^verbatim>\<open>undefined\<close> is read;
  \<^item> \<open>processRequestActions\<close>, \<open>processResponseActions\<close>: the two methods of the
    \<^verbatim>\<open>ActionsRunner\<close>;
  \<^item> \<open>currentEnvironment\<close>: \<^verbatim>\<open>ArcModelEvents.Environment.current(eventsTarget)\<close>;
  \<^item> \<open>processorEvaluateVariables jexl environment request\<close>: the call
    \<^verbatim>\<open>new VariablesProcessor(jexl, environment.variables).evaluateVariables(request.request, [...])\<close>.
\<close>

record host =
  Events :: "string \<Rightarrow> jsval"
  ArcModelEvents :: "string \<Rightarrow> jsval"
  ABORT :: int
  typeErrorMessage :: string
  processRequestActions :: "arcEditorRequest \<Rightarrow> bool option \<Rightarrow> unit run"
  processResponseActions :: "arcEditorRequest \<Rightarrow> jsval \<Rightarrow> jsval \<Rightarrow> bool option \<Rightarrow> unit run"
  currentEnvironment :: "jsval \<Rightarrow> jsval pending"
  processorEvaluateVariables :: "jsval \<Rightarrow> jsval \<Rightarrow> arcEditorRequest \<Rightarrow> unit run"

section \<open>Building the execution context\<close>

definition prepareExecutionEvents :: "host \<Rightarrow> jsval" where
  "prepareExecutionEvents h =
     (let result = JObj
        [(''ArcNavigationEvents'', Events h ''ArcNavigationEvents''),
         (''SessionCookieEvents'', Events h ''SessionCookieEvents''),
         (''EncryptionEvents'', Events h ''EncryptionEvents''),
         (''GoogleDriveEvents'', Events h ''GoogleDriveEvents''),
         (''ProcessEvents'', Events h ''ProcessEvents''),
         (''WorkspaceEvents'', Events h ''WorkspaceEvents''),
         (''RequestEvents'', Events h ''RequestEvents''),
         (''AuthorizationEvents'', Events h ''AuthorizationEvents''),
         (''ConfigEvents'', Events h ''ConfigEvents'')] False
      in freeze result)"

text \<open>\<^verbatim>\<open>result.k = v\<close> on the object literal under construction (not frozen yet).\<close>

fun setField :: "string \<Rightarrow> jsval \<Rightarrow> jsval \<Rightarrow> jsval" where
  "setField k v (JObj ps f) = JObj (AList.update k v ps) f"
| "setField k v (JPrim s) = JPrim s"

definition prepareExecutionStore :: "host \<Rightarrow> bool \<Rightarrow> jsval" where
  "prepareExecutionStore h hasEnvironment =
     (let result = JObj
        [(''AuthData'', ArcModelEvents h ''AuthData''),
         (''ClientCertificate'', ArcModelEvents h ''ClientCertificate''),
         (''HostRules'', ArcModelEvents h ''HostRules''),
         (''Project'', ArcModelEvents h ''Project''),
         (''Request'', ArcModelEvents h ''Request''),
         (''RestApi'', ArcModelEvents h ''RestApi''),
         (''UrlHistory'', ArcModelEvents h ''UrlHistory''),
         (''UrlIndexer'', ArcModelEvents h ''UrlIndexer''),
         (''WSUrlHistory'', ArcModelEvents h ''WSUrlHistory'')] False;
        result = (if hasEnvironment
                  then setField ''Variable'' (ArcModelEvents h ''Variable'')
                         (setField ''Environment'' (ArcModelEvents h ''Environment'') result)
                  else result)
      in freeze result)"

text \<open>
  \<open>buildExecutionContext\<close>: \<open>target\<close> is \<^verbatim>\<open>this.eventsTarget\<close>.
  \<^verbatim>\<open>permissions.includes(x)\<close> is membership in the list.
\<close>

definition buildExecutionContext :: "host \<Rightarrow> jsval \<Rightarrow> string list \<Rightarrow> jsval \<Rightarrow> jsval" where
  "buildExecutionContext h target perms environment =
     (let result = JObj [(''eventsTarget'', target)] False;
          hasEnvironment = (''environment'' \<in> set perms);
          result = (if hasEnvironment then setField ''environment'' environment result else result);
          result = (if ''events'' \<in> set perms
                    then setField ''Events'' (prepareExecutionEvents h) result else result);
          result = (if ''store'' \<in> set perms
                    then setField ''Store'' (prepareExecutionStore h hasEnvironment) result
                    else result)
      in freeze result)"

section \<open>The factory and its cancellation tokens\<close>

text \<open>
  \<open>abortControllers\<close> is the factory's \<^verbatim>\<open>Map<string, AbortController>\<close>. It holds
  references, and a controller is also held by the call that created it, so the
  controllers live in a store of their own: \<open>controllers\<close>, where the address of a
  controller is its index and the entry is its \<^verbatim>\<open>signal.aborted\<close>.
  \<open>requestModules\<close> and \<open>responseModules\<close> are what \<^verbatim>\<open>ModulesRegistry.get\<close> returns
  for the two kinds, in iteration order.

  \<open>trace\<close> is not data of the program: it records, in order, what happens, so that
  statements about invocations can be made.
  \<^item> \<open>Polled c b\<close>: a module loop read \<^verbatim>\<open>signal.aborted\<close> of controller \<open>c\<close> and saw \<open>b\<close>.
  \<^item> \<open>Called i c r\<close>: the function of module \<open>i\<close> was called with the signal of
    controller \<open>c\<close>, the request object holding \<open>r\<close>.
  \<^item> \<open>Settled i p r\<close>: the promise of that call settled as \<open>p\<close>, the request object
    holding \<open>r\<close>.
  \<^item> \<open>AbortCall i\<close>: \<^verbatim>\<open>abort(i)\<close> was called.
\<close>

datatype event =
    Polled nat bool
  | Called string nat arcEditorRequest
  | Settled string "int option settled" arcEditorRequest
  | AbortCall string

record state =
  eventsTarget :: jsval
  jexl :: jsval
  abortControllers :: "string \<Rightarrow> nat option"
  controllers :: "bool list"
  requestModules :: "(string \<times> requestFn registeredModule) list"
  responseModules :: "(string \<times> responseFn registeredModule) list"
  trace :: "event list"

definition emit :: "event \<Rightarrow> state \<Rightarrow> state" where
  "emit e s = s\<lparr>trace := trace s @ [e]\<rparr>"

text \<open>\<^verbatim>\<open>new AbortController()\<close>: a fresh address, not aborted.\<close>

definition newAbortController :: "state \<Rightarrow> nat \<times> state" where
  "newAbortController s = (length (controllers s), s\<lparr>controllers := controllers s @ [False]\<rparr>)"

text \<open>\<^verbatim>\<open>signal.aborted\<close> of the controller at address \<open>c\<close>.\<close>

definition aborted :: "state \<Rightarrow> nat \<Rightarrow> bool" where
  "aborted s c = (c < length (controllers s) \<and> controllers s ! c)"

definition abort :: "string \<Rightarrow> state \<Rightarrow> state" where
  "abort i s =
     (let s = emit (AbortCall i) s
      in case abortControllers s i of
           None \<Rightarrow> s
         | Some controller \<Rightarrow>
             s\<lparr>controllers := (controllers s)[controller := True],
               abortControllers := (abortControllers s)(i := None)\<rparr>)"

text \<open>The calls of \<open>abort\<close> that other code makes while a promise is pending.\<close>

definition meanwhile :: "string list \<Rightarrow> state \<Rightarrow> state" where
  "meanwhile ids s = fold abort ids s"

section \<open>Running one module\<close>

text \<open>
  The \<^verbatim>\<open>catch\<close> block of both functions, for module \<open>i\<close> and the value \<open>e\<close> caught:
  \<^verbatim>\<open>const message = `Request module ${id} reported error: ${e.message}`; throw new Error(message)\<close>.
  Reading \<^verbatim>\<open>e.message\<close> raises when \<open>e\<close> is \<^verbatim>\<open>null\<close> or \<^verbatim>\<open>undefined\<close>, and that
  \<^verbatim>\<open>TypeError\<close> is then what leaves the block; a property that is \<^verbatim>\<open>undefined\<close> is
  printed as such by the template.
\<close>

fun caught :: "host \<Rightarrow> string \<Rightarrow> thrown \<Rightarrow> thrown" where
  "caught h i (Error m) = Error (''Request module '' @ i @ '' reported error: '' @ m)"
| "caught h i NoMessage = Error (''Request module '' @ i @ '' reported error: '' @ ''undefined'')"
| "caught h i Nullish = Error (typeErrorMessage h)"

text \<open>
  Both functions build the context, call the module and wrap what it throws. The result
  is the settled promise, the request as the module leaves it, and the state.
\<close>

definition executeRequestModule ::
  "host \<Rightarrow> arcEditorRequest \<Rightarrow> string \<Rightarrow> requestFn registeredModule \<Rightarrow> jsval \<Rightarrow> nat \<Rightarrow> state
     \<Rightarrow> int option settled \<times> arcEditorRequest \<times> state" where
  "executeRequestModule h r i info environment signal s =
     (let context = buildExecutionContext h (eventsTarget s) (permissions info) environment;
          s = emit (Called i signal r) s;
          p = fn info r context (aborted s signal);
          s = emit (Settled i (settles p) (leaves p)) (meanwhile (aborts p) s)
      in case settles p of
           Rejected e \<Rightarrow> (Rejected (caught h i e), leaves p, s)
         | Fulfilled result \<Rightarrow> (Fulfilled result, leaves p, s))"

definition executeResponseModule ::
  "host \<Rightarrow> arcEditorRequest \<Rightarrow> jsval \<Rightarrow> jsval \<Rightarrow> string \<Rightarrow> responseFn registeredModule \<Rightarrow> jsval
     \<Rightarrow> nat \<Rightarrow> state \<Rightarrow> int option settled \<times> arcEditorRequest \<times> state" where
  "executeResponseModule h r executed response i info environment signal s =
     (let context = buildExecutionContext h (eventsTarget s) (permissions info) environment;
          s = emit (Called i signal r) s;
          p = fn info r executed response context (aborted s signal);
          s = emit (Settled i (settles p) (leaves p)) (meanwhile (aborts p) s)
      in case settles p of
           Rejected e \<Rightarrow> (Rejected (caught h i e), leaves p, s)
         | Fulfilled result \<Rightarrow> (Fulfilled result, leaves p, s))"

section \<open>The two pipelines\<close>

text \<open>
  How a module loop is left: by a \<^verbatim>\<open>return\<close> inside it, by an exception, or by
  running off its end (\<open>Next\<close>).
\<close>

datatype 'a flow = Return 'a | Throw thrown | Next

fun requestLoop ::
  "host \<Rightarrow> jsval \<Rightarrow> nat \<Rightarrow> (string \<times> requestFn registeredModule) list \<Rightarrow> arcEditorRequest \<Rightarrow> state
     \<Rightarrow> arcEditorRequest option flow \<times> arcEditorRequest \<times> state" where
  "requestLoop h environment signal [] r s = (Next, r, s)"
| "requestLoop h environment signal ((i, main) # modules) r s =
     (let b = aborted s signal;
          s = emit (Polled signal b) s
      in if b then (Return None, r, s\<lparr>abortControllers := (abortControllers s)(id' r := None)\<rparr>)
         else (case executeRequestModule h r i main environment signal s of
                 (Rejected m, r, s) \<Rightarrow> (Throw m, r, s)
               | (Fulfilled result, r, s) \<Rightarrow>
                   if result = Some (ABORT h) then (Return None, r, s)
                   else requestLoop h environment signal modules r s))"

fun responseLoop ::
  "host \<Rightarrow> jsval \<Rightarrow> jsval \<Rightarrow> jsval \<Rightarrow> nat \<Rightarrow> (string \<times> responseFn registeredModule) list
     \<Rightarrow> arcEditorRequest \<Rightarrow> state \<Rightarrow> unit flow \<times> arcEditorRequest \<times> state" where
  "responseLoop h executed response environment signal [] r s = (Next, r, s)"
| "responseLoop h executed response environment signal ((i, main) # modules) r s =
     (let b = aborted s signal;
          s = emit (Polled signal b) s
      in if b then (Return (), r, s\<lparr>abortControllers := (abortControllers s)(id' r := None)\<rparr>)
         else (case executeResponseModule h r executed response i main environment signal s of
                 (Rejected m, r, s) \<Rightarrow> (Throw m, r, s)
               | (Fulfilled result, r, s) \<Rightarrow>
                   if result = Some (ABORT h)
                   then (Return (), r, s\<lparr>abortControllers := (abortControllers s)(id' r := None)\<rparr>)
                   else responseLoop h executed response environment signal modules r s))"

text \<open>
  \<open>processRequest\<close>. The result is the promise's outcome (\<open>Fulfilled None\<close> is
  \<^verbatim>\<open>null\<close>, \<open>Fulfilled (Some r)\<close> the request object), the request object's content
  at the end, and the state.
\<close>

definition processRequest ::
  "host \<Rightarrow> arcEditorRequest \<Rightarrow> processOptions \<Rightarrow> state
     \<Rightarrow> arcEditorRequest option settled \<times> arcEditorRequest \<times> state" where
  "processRequest h r options s =
     (let (abortController, s) = newAbortController s;
          signal = abortController;
          p = processRequestActions h r (evaluateVariables options);
          s = meanwhile (aborts p) s;
          r = leaves p
      in case settles p of
           Rejected m \<Rightarrow> (Rejected m, r, s)
         | Fulfilled _ \<Rightarrow>
            (let e = currentEnvironment h (eventsTarget s);
                 s = meanwhile (aborts e) s
             in case settles e of
                  Rejected m \<Rightarrow> (Rejected m, r, s)
                | Fulfilled environment \<Rightarrow>
                   (let v = (if evaluateVariables options \<noteq> Some False
                             then processorEvaluateVariables h (jexl s) environment r
                             else \<lparr>aborts = [], settles = Fulfilled (), leaves = r\<rparr>);
                        s = meanwhile (aborts v) s;
                        r = leaves v
                    in case settles v of
                         Rejected m \<Rightarrow> (Rejected m, r, s)
                       | Fulfilled _ \<Rightarrow>
                          (let modules = requestModules s
                           in case requestLoop h environment signal modules r s of
                                (Return x, r, s) \<Rightarrow> (Fulfilled x, r, s)
                              | (Throw m, r, s) \<Rightarrow> (Rejected m, r, s)
                              | (Next, r, s) \<Rightarrow>
                                  (Fulfilled (Some r), r,
                                   s\<lparr>abortControllers := (abortControllers s)(id' r \<mapsto> abortController)\<rparr>)))))"

definition processResponse ::
  "host \<Rightarrow> arcEditorRequest \<Rightarrow> jsval \<Rightarrow> jsval \<Rightarrow> processOptions \<Rightarrow> state
     \<Rightarrow> unit settled \<times> arcEditorRequest \<times> state" where
  "processResponse h r executed response options s =
     (let (abortController, s) =
            (case abortControllers s (id' r) of
               Some c \<Rightarrow> (c, s)
             | None \<Rightarrow> newAbortController s);
          signal = abortController;
          p = processResponseActions h r executed response (evaluateVariables options);
          s = meanwhile (aborts p) s;
          r = leaves p
      in case settles p of
           Rejected m \<Rightarrow> (Rejected m, r, s)
         | Fulfilled _ \<Rightarrow>
            (let modules = responseModules s;
                 e = currentEnvironment h (eventsTarget s);
                 s = meanwhile (aborts e) s
             in case settles e of
                  Rejected m \<Rightarrow> (Rejected m, r, s)
                | Fulfilled environment \<Rightarrow>
                   (case responseLoop h executed response environment signal modules r s of
                      (Return x, r, s) \<Rightarrow> (Fulfilled x, r, s)
                    | (Throw m, r, s) \<Rightarrow> (Rejected m, r, s)
                    | (Next, r, s) \<Rightarrow>
                        (Fulfilled (), r, s\<lparr>abortControllers := (abortControllers s)(id' r := None)\<rparr>))))"

section \<open>Observing a run\<close>

text \<open>
  Vocabulary for the statements below; none of it is code of the program.
  \<open>since s s'\<close> is what the trace gained between two states. \<open>calledIds\<close>, \<open>polls\<close>,
  \<open>abortCalls\<close> and \<open>signalsUsed\<close> read a trace: the modules called, the values the loop
  read from \<^verbatim>\<open>signal.aborted\<close>, the identifiers passed to \<open>abort\<close>, and the controllers
  whose signal was read or handed to a module. \<open>following e t\<close> is what comes after the
  first \<open>e\<close> in \<open>t\<close>. \<open>halted a t\<close> holds when, in \<open>t\<close>, the loop saw its signal
  aborted, or a module returned \<open>a\<close> or threw. \<open>sequential None r t\<close> holds when, in
  \<open>t\<close>, every call settles before anything else of the pipeline happens, and every module
  is called on the request as the module before it left it (\<open>r\<close> for the first).
  \<open>wellFormed\<close> says that the registry refers to controllers that exist;
  \<open>unregistered s c\<close> that no identifier is mapped to \<open>c\<close>.
  \<open>afterModule\<close>, \<open>prelude\<close>, \<open>responsePrelude\<close> and \<open>tokenFor\<close> name intermediate states
  of the two entry points: after one module has run, and when the module loop starts.
\<close>

definition since :: "state \<Rightarrow> state \<Rightarrow> event list" where
  "since s s' = drop (length (trace s)) (trace s')"

definition unregistered :: "state \<Rightarrow> nat \<Rightarrow> bool" where
  "unregistered s c = (\<forall>i. abortControllers s i \<noteq> Some c)"

definition wellFormed :: "state \<Rightarrow> bool" where
  "wellFormed s = (\<forall>i c. abortControllers s i = Some c \<longrightarrow> c < length (controllers s))"

definition afterModule :: "string \<Rightarrow> nat \<Rightarrow> arcEditorRequest \<Rightarrow> 'a run \<Rightarrow> int option settled \<Rightarrow> state \<Rightarrow> state" where
  "afterModule i c r p out s =
     emit (Settled i out (leaves p)) (meanwhile (aborts p) (emit (Called i c r) (emit (Polled c False) s)))"

definition prelude :: "string list \<Rightarrow> state \<Rightarrow> state" where
  "prelude ids s = meanwhile ids (s\<lparr>controllers := controllers s @ [False]\<rparr>)"

definition tokenFor :: "state \<Rightarrow> string \<Rightarrow> nat" where
  "tokenFor s i = (case abortControllers s i of Some c \<Rightarrow> c | None \<Rightarrow> length (controllers s))"

definition responsePrelude :: "string \<Rightarrow> string list \<Rightarrow> state \<Rightarrow> state" where
  "responsePrelude i ids s =
     meanwhile ids (case abortControllers s i of
                      Some c \<Rightarrow> s
                    | None \<Rightarrow> s\<lparr>controllers := controllers s @ [False]\<rparr>)"

fun calledIds :: "event list \<Rightarrow> string list" where
  "calledIds [] = []"
| "calledIds (Called i c r # t) = i # calledIds t"
| "calledIds (e # t) = calledIds t"

fun polls :: "event list \<Rightarrow> bool list" where
  "polls [] = []"
| "polls (Polled c b # t) = b # polls t"
| "polls (e # t) = polls t"

fun abortCalls :: "event list \<Rightarrow> string list" where
  "abortCalls [] = []"
| "abortCalls (AbortCall i # t) = i # abortCalls t"
| "abortCalls (e # t) = abortCalls t"

fun signalsUsed :: "event list \<Rightarrow> nat list" where
  "signalsUsed [] = []"
| "signalsUsed (Polled c b # t) = c # signalsUsed t"
| "signalsUsed (Called i c r # t) = c # signalsUsed t"
| "signalsUsed (e # t) = signalsUsed t"

fun sequential :: "string option \<Rightarrow> arcEditorRequest \<Rightarrow> event list \<Rightarrow> bool" where
  "sequential cur r [] = (cur = None)"
| "sequential cur r (AbortCall i # t) = sequential cur r t"
| "sequential cur r (Polled c b # t) = (cur = None \<and> sequential None r t)"
| "sequential cur r (Called i c x # t) = (cur = None \<and> x = r \<and> sequential (Some i) r t)"
| "sequential cur r (Settled i p x # t) = (cur = Some i \<and> sequential None x t)"

fun following :: "event \<Rightarrow> event list \<Rightarrow> event list" where
  "following e [] = []"
| "following e (x # t) = (if x = e then t else following e t)"

fun halted :: "int \<Rightarrow> event list \<Rightarrow> bool" where
  "halted a [] = False"
| "halted a (Polled c b # t) = (b \<or> halted a t)"
| "halted a (Settled i p x # t) =
     ((case p of Rejected m \<Rightarrow> True | Fulfilled v \<Rightarrow> v = Some a) \<or> halted a t)"
| "halted a (e # t) = halted a t"

text \<open>
  The runner as the specification describes it (section 4.3, steps 2 to 6), written a
  second time and without the state, to compare the pipelines with: for each registered
  module in registration order, build its context and invoke it on the request as it is
  now; when the invocation raises a failure or returns \<open>ABORT\<close>, stop; otherwise go on
  with the request as that module left it. \<open>dispatch a invoke ms r\<close> lists the
  invocations made: the module's identifier, the request it was invoked on, how its promise
  settled and the request it left. \<open>invokeRequest\<close> and \<open>invokeResponse\<close> are the
  invocations of the two kinds of module, with a signal that is not aborted.
  \<open>calls\<close> and \<open>settlements\<close> read the same information from a trace, and
  \<open>leftBy r d\<close> is the request after the invocations \<open>d\<close>, started on \<open>r\<close>.
\<close>

type_synonym invocation = "string \<times> arcEditorRequest \<times> int option settled \<times> arcEditorRequest"

fun dispatch ::
  "int \<Rightarrow> ('m \<Rightarrow> arcEditorRequest \<Rightarrow> int option run) \<Rightarrow> (string \<times> 'm) list \<Rightarrow> arcEditorRequest
     \<Rightarrow> invocation list" where
  "dispatch a invoke [] r = []"
| "dispatch a invoke ((i, m) # ms) r =
     (let p = invoke m r
      in (i, r, settles p, leaves p) #
         (case settles p of
            Rejected e \<Rightarrow> []
          | Fulfilled v \<Rightarrow> if v = Some a then [] else dispatch a invoke ms (leaves p)))"

definition invokeRequest ::
  "host \<Rightarrow> jsval \<Rightarrow> jsval \<Rightarrow> requestFn registeredModule \<Rightarrow> arcEditorRequest \<Rightarrow> int option run" where
  "invokeRequest h target environment m r =
     fn m r (buildExecutionContext h target (permissions m) environment) False"

definition invokeResponse ::
  "host \<Rightarrow> jsval \<Rightarrow> jsval \<Rightarrow> jsval \<Rightarrow> jsval \<Rightarrow> responseFn registeredModule \<Rightarrow> arcEditorRequest
     \<Rightarrow> int option run" where
  "invokeResponse h target executed response environment m r =
     fn m r executed response (buildExecutionContext h target (permissions m) environment) False"

fun calls :: "event list \<Rightarrow> (string \<times> arcEditorRequest) list" where
  "calls [] = []"
| "calls (Called i c r # t) = (i, r) # calls t"
| "calls (e # t) = calls t"

fun settlements :: "event list \<Rightarrow> (string \<times> int option settled \<times> arcEditorRequest) list" where
  "settlements [] = []"
| "settlements (Settled i p x # t) = (i, p, x) # settlements t"
| "settlements (e # t) = settlements t"

fun called :: "invocation \<Rightarrow> string \<times> arcEditorRequest" where
  "called (i, r, p, x) = (i, r)"

fun settlement :: "invocation \<Rightarrow> string \<times> int option settled \<times> arcEditorRequest" where
  "settlement (i, r, p, x) = (i, p, x)"

fun leftBy :: "arcEditorRequest \<Rightarrow> invocation list \<Rightarrow> arcEditorRequest" where
  "leftBy r [] = r"
| "leftBy r ((i, r0, p, x) # d) = leftBy x d"

section \<open>Sample inputs\<close>

text \<open>Concrete collaborators, requests and modules, used where a statement is evaluated.\<close>

definition sampleEnvironment :: jsval where
  "sampleEnvironment = JObj [(''name'', JPrim ''default'')] False"

definition sampleHost :: host where
  "sampleHost =
     \<lparr>Events = (\<lambda>k. JPrim (''Events.'' @ k)),
      ArcModelEvents = (\<lambda>k. JPrim (''ArcModelEvents.'' @ k)),
      ABORT = 1,
      typeErrorMessage = ''Cannot read properties of null'',
      processRequestActions = (\<lambda>r ev. \<lparr>aborts = [], settles = Fulfilled (), leaves = r\<rparr>),
      processResponseActions = (\<lambda>r executed response ev. \<lparr>aborts = [], settles = Fulfilled (), leaves = r\<rparr>),
      currentEnvironment = (\<lambda>t. \<lparr>aborts = [], settles = Fulfilled sampleEnvironment\<rparr>),
      processorEvaluateVariables = (\<lambda>j e r. \<lparr>aborts = [], settles = Fulfilled (), leaves = r\<rparr>)\<rparr>"

text \<open>The same collaborators, but while the pre-actions are pending other code calls
  \<^verbatim>\<open>abort\<close> with the identifier of the request.\<close>

definition interruptedHost :: host where
  "interruptedHost =
     sampleHost\<lparr>processRequestActions :=
       (\<lambda>r ev. \<lparr>aborts = [id' r], settles = Fulfilled (), leaves = r\<rparr>)\<rparr>"

definition sampleRequest :: arcEditorRequest where
  "sampleRequest = \<lparr>id' = ''r1'', request = JObj [(''url'', JPrim ''http://localhost/'')] False\<rparr>"

definition noOptions :: processOptions where
  "noOptions = \<lparr>evaluateVariables = None\<rparr>"

text \<open>A factory right after its construction, with the given contents of the modules
  registry: no token registered, no controller created, nothing observed.\<close>

definition newFactory ::
  "(string \<times> requestFn registeredModule) list \<Rightarrow> (string \<times> responseFn registeredModule) list \<Rightarrow> state" where
  "newFactory req resp =
     \<lparr>eventsTarget = JPrim ''window'', jexl = JPrim ''jexl'', abortControllers = Map.empty,
      controllers = [], requestModules = req, responseModules = resp, trace = []\<rparr>"

text \<open>
  Request modules: \<open>marking k\<close> writes the property \<open>k\<close> into the request data;
  \<open>vetoing\<close> returns the \<open>ABORT\<close> of \<open>sampleHost\<close>; \<open>failing\<close> throws an
  \<^verbatim>\<open>Error\<close>, \<open>throwingNull\<close> throws \<^verbatim>\<open>null\<close>, \<open>throwingText\<close> throws a string;
  \<open>cancelling k\<close> writes \<open>k\<close> and, while it runs, \<^verbatim>\<open>abort\<close> is called with the
  identifier of the request. Response modules: \<open>markingResponse k\<close> writes \<open>k\<close>,
  \<open>vetoingResponse\<close> returns \<open>ABORT\<close>, \<open>failingResponse\<close> throws an \<^verbatim>\<open>Error\<close>.
\<close>

definition marking :: "string \<Rightarrow> requestFn registeredModule" where
  "marking k =
     \<lparr>permissions = [],
      fn = (\<lambda>r context signalAborted.
              \<lparr>aborts = [], settles = Fulfilled None,
               leaves = r\<lparr>request := setField k (JPrim ''seen'') (request r)\<rparr>\<rparr>)\<rparr>"

definition vetoing :: "requestFn registeredModule" where
  "vetoing =
     \<lparr>permissions = [],
      fn = (\<lambda>r context signalAborted. \<lparr>aborts = [], settles = Fulfilled (Some 1), leaves = r\<rparr>)\<rparr>"

definition failing :: "requestFn registeredModule" where
  "failing =
     \<lparr>permissions = [],
      fn = (\<lambda>r context signalAborted. \<lparr>aborts = [], settles = Rejected (Error ''boom''), leaves = r\<rparr>)\<rparr>"

definition throwingNull :: "requestFn registeredModule" where
  "throwingNull =
     \<lparr>permissions = [],
      fn = (\<lambda>r context signalAborted. \<lparr>aborts = [], settles = Rejected Nullish, leaves = r\<rparr>)\<rparr>"

definition throwingText :: "requestFn registeredModule" where
  "throwingText =
     \<lparr>permissions = [],
      fn = (\<lambda>r context signalAborted. \<lparr>aborts = [], settles = Rejected NoMessage, leaves = r\<rparr>)\<rparr>"

definition cancelling :: "string \<Rightarrow> requestFn registeredModule" where
  "cancelling k =
     \<lparr>permissions = [],
      fn = (\<lambda>r context signalAborted.
              \<lparr>aborts = [id' r], settles = Fulfilled None,
               leaves = r\<lparr>request := setField k (JPrim ''seen'') (request r)\<rparr>\<rparr>)\<rparr>"

definition failingResponse :: "responseFn registeredModule" where
  "failingResponse =
     \<lparr>permissions = [],
      fn = (\<lambda>r executed response context signalAborted.
              \<lparr>aborts = [], settles = Rejected (Error ''boom''), leaves = r\<rparr>)\<rparr>"

definition markingResponse :: "string \<Rightarrow> responseFn registeredModule" where
  "markingResponse k =
     \<lparr>permissions = [],
      fn = (\<lambda>r executed response context signalAborted.
              \<lparr>aborts = [], settles = Fulfilled None,
               leaves = r\<lparr>request := setField k (JPrim ''seen'') (request r)\<rparr>\<rparr>)\<rparr>"

definition vetoingResponse :: "responseFn registeredModule" where
  "vetoingResponse =
     \<lparr>permissions = [],
      fn = (\<lambda>r executed response context signalAborted.
              \<lparr>aborts = [], settles = Fulfilled (Some 1), leaves = r\<rparr>)\<rparr>"

text \<open>A factory in which controller \<open>0\<close> exists and is registered for \<open>r1\<close>, as it is
  after a request with that identifier went through \<open>processRequest\<close>.\<close>

definition busyFactory ::
  "(string \<times> requestFn registeredModule) list \<Rightarrow> (string \<times> responseFn registeredModule) list \<Rightarrow> state" where
  "busyFactory req resp =
     (newFactory req resp)\<lparr>abortControllers := [''r1'' \<mapsto> 0], controllers := [False]\<rparr>"

section \<open>How the state changes\<close>

subsection \<open>What the operations on the state leave alone\<close>

lemma emit_simps [simp]:
  "trace (emit e s) = trace s @ [e]"
  "abortControllers (emit e s) = abortControllers s"
  "controllers (emit e s) = controllers s"
  "eventsTarget (emit e s) = eventsTarget s"
  "jexl (emit e s) = jexl s"
  "requestModules (emit e s) = requestModules s"
  "responseModules (emit e s) = responseModules s"
  by (simp_all add: emit_def)

lemma aborted_emit [simp]: "aborted (emit e s) c = aborted s c"
  by (simp add: aborted_def)

lemma unregistered_emit [simp]: "unregistered (emit e s) c = unregistered s c"
  by (simp add: unregistered_def)

lemma abort_simps [simp]:
  "trace (abort i s) = trace s @ [AbortCall i]"
  "abortControllers (abort i s) = (abortControllers s)(i := None)"
  "length (controllers (abort i s)) = length (controllers s)"
  "eventsTarget (abort i s) = eventsTarget s"
  "jexl (abort i s) = jexl s"
  "requestModules (abort i s) = requestModules s"
  "responseModules (abort i s) = responseModules s"
  by (auto simp: abort_def Let_def split: option.splits)

lemma abort_unregistered:
  assumes "unregistered s c"
  shows "unregistered (abort i s) c \<and> aborted (abort i s) c = aborted s c"
proof (cases "abortControllers s i")
  case None
  with assms show ?thesis
    by (auto simp: abort_def Let_def unregistered_def aborted_def)
next
  case (Some x)
  with assms have "x \<noteq> c"
    by (auto simp: unregistered_def)
  with Some assms show ?thesis
    by (auto simp: abort_def Let_def unregistered_def aborted_def)
qed

lemma meanwhile_simps [simp]:
  "trace (meanwhile ids s) = trace s @ map AbortCall ids"
  "abortControllers (meanwhile ids s) k = (if k \<in> set ids then None else abortControllers s k)"
  "length (controllers (meanwhile ids s)) = length (controllers s)"
  "eventsTarget (meanwhile ids s) = eventsTarget s"
  "jexl (meanwhile ids s) = jexl s"
  "requestModules (meanwhile ids s) = requestModules s"
  "responseModules (meanwhile ids s) = responseModules s"
  unfolding meanwhile_def
  by (induction ids arbitrary: s; auto)+

lemma meanwhile_unregistered:
  "unregistered s c \<Longrightarrow> unregistered (meanwhile ids s) c \<and> aborted (meanwhile ids s) c = aborted s c"
  unfolding meanwhile_def
  by (induction ids arbitrary: s) (auto simp: abort_unregistered)

lemma afterModule_simps [simp]:
  "trace (afterModule i c r p out s) =
     trace s @ Polled c False # Called i c r # map AbortCall (aborts p) @ [Settled i out (leaves p)]"
  "abortControllers (afterModule i c r p out s) k =
     (if k \<in> set (aborts p) then None else abortControllers s k)"
  "length (controllers (afterModule i c r p out s)) = length (controllers s)"
  "eventsTarget (afterModule i c r p out s) = eventsTarget s"
  "jexl (afterModule i c r p out s) = jexl s"
  "requestModules (afterModule i c r p out s) = requestModules s"
  "responseModules (afterModule i c r p out s) = responseModules s"
  by (simp_all add: afterModule_def)

lemma afterModule_unregistered:
  "unregistered s c \<Longrightarrow>
     unregistered (afterModule i c' r p out s) c \<and> aborted (afterModule i c' r p out s) c = aborted s c"
  by (simp add: afterModule_def meanwhile_unregistered)

subsection \<open>One turn of the request loop\<close>

text \<open>The four ways a turn of the loop can go: the signal is seen aborted, the module throws,
  the module returns \<open>ABORT\<close>, or the loop goes on.\<close>

lemma requestLoop_ConsE:
  assumes "requestLoop h environment c ((i, main) # ms) r s = (fl, r', s')"
  obtains
    (cancelled) "aborted s c" "fl = Return None" "r' = r"
      "s' = (emit (Polled c True) s)\<lparr>abortControllers := (abortControllers s)(id' r := None)\<rparr>"
  | (threw) p m where "\<not> aborted s c"
      "p = fn main r (buildExecutionContext h (eventsTarget s) (permissions main) environment) False"
      "settles p = Rejected m" "fl = Throw (caught h i m)" "r' = leaves p"
      "s' = afterModule i c r p (settles p) s"
  | (stopped) p where "\<not> aborted s c"
      "p = fn main r (buildExecutionContext h (eventsTarget s) (permissions main) environment) False"
      "settles p = Fulfilled (Some (ABORT h))" "fl = Return None" "r' = leaves p"
      "s' = afterModule i c r p (settles p) s"
  | (continued) p v where "\<not> aborted s c"
      "p = fn main r (buildExecutionContext h (eventsTarget s) (permissions main) environment) False"
      "settles p = Fulfilled v" "v \<noteq> Some (ABORT h)"
      "requestLoop h environment c ms (leaves p) (afterModule i c r p (settles p) s) = (fl, r', s')"
  using assms
  by (auto simp: Let_def executeRequestModule_def afterModule_def
      split: if_splits settled.splits)

subsection \<open>Reading traces\<close>

lemma calledIds_append [simp]: "calledIds (t @ u) = calledIds t @ calledIds u"
  by (induction t rule: calledIds.induct) auto

lemma polls_append [simp]: "polls (t @ u) = polls t @ polls u"
  by (induction t rule: polls.induct) auto

lemma abortCalls_append [simp]: "abortCalls (t @ u) = abortCalls t @ abortCalls u"
  by (induction t rule: abortCalls.induct) auto

lemma signalsUsed_append [simp]: "signalsUsed (t @ u) = signalsUsed t @ signalsUsed u"
  by (induction t rule: signalsUsed.induct) auto

lemma aborts_only [simp]:
  "calledIds (map AbortCall ids) = []" "polls (map AbortCall ids) = []"
  "abortCalls (map AbortCall ids) = ids" "signalsUsed (map AbortCall ids) = []"
  by (induction ids) auto

lemma sequential_aborts [simp]: "sequential cur r (map AbortCall ids @ t) = sequential cur r t"
  by (induction ids) auto

lemma set_abortCalls: "(AbortCall i \<in> set t) = (i \<in> set (abortCalls t))"
  by (induction t rule: abortCalls.induct) auto

subsection \<open>The request loop\<close>

lemma requestLoop_trace:
  "requestLoop h environment c ms r s = (fl, r', s') \<Longrightarrow> \<exists>t. trace s' = trace s @ t"
proof (induction ms arbitrary: r s)
  case Nil
  then show ?case by simp
next
  case (Cons a ms)
  obtain i main where a: "a = (i, main)" by (cases a)
  from Cons.prems show ?case unfolding a
  proof (cases rule: requestLoop_ConsE)
    case (continued p v)
    from Cons.IH[OF continued(5)] show ?thesis by auto
  qed auto
qed

lemma since_append: "trace s' = trace s @ t \<Longrightarrow> since s s' = t"
  by (simp add: since_def)

lemma following_aborts [simp]:
  "following (Settled i out x) (map AbortCall ids @ t) = following (Settled i out x) t"
  by (induction ids) auto

lemma since_self [simp]: "since s s = []"
  by (simp add: since_def)

lemma since_afterModule [simp]:
  "since s (afterModule i c r p out s) =
     Polled c False # Called i c r # map AbortCall (aborts p) @ [Settled i out (leaves p)]"
  by (simp add: since_def)

lemma since_emit [simp]: "since s (emit e s) = [e]"
  by (simp add: since_def)

lemma since_registry [simp]: "since s (s'\<lparr>abortControllers := m\<rparr>) = since s s'"
  by (simp add: since_def)

lemma since_requestLoop:
  assumes "requestLoop h environment c ms r1 (afterModule i c r p out s) = (fl, r', s')"
  shows "since s s' = Polled c False # Called i c r # map AbortCall (aborts p) @
           Settled i out (leaves p) # since (afterModule i c r p out s) s'"
proof -
  from requestLoop_trace[OF assms] obtain t where t: "trace s' = trace (afterModule i c r p out s) @ t"
    by blast
  then have "trace s' = trace s @
      (Polled c False # Called i c r # map AbortCall (aborts p) @ Settled i out (leaves p) # t)"
    by simp
  from since_append[OF this] since_append[OF t] show ?thesis
    by simp
qed

lemma requestLoop_stopped:
  assumes "requestLoop h environment c ms r s = (fl, r', s')"
    and "Settled i (Fulfilled (Some (ABORT h))) x \<in> set (since s s')"
  shows "fl = Return None \<and> r' = x \<and> following (Settled i (Fulfilled (Some (ABORT h))) x) (since s s') = []"
  using assms
proof (induction ms arbitrary: r s)
  case Nil
  then show ?case by simp
next
  case (Cons a ms)
  obtain j main where a: "a = (j, main)" by (cases a)
  from Cons.prems(1)[unfolded a] show ?case
  proof (cases rule: requestLoop_ConsE)
    case cancelled
    with Cons.prems(2) show ?thesis by simp
  next
    case (threw p m)
    with Cons.prems(2) show ?thesis by auto
  next
    case (stopped p)
    with Cons.prems(2) show ?thesis by auto
  next
    case (continued p v)
    note step = since_requestLoop[OF continued(5)]
    from Cons.prems(2) continued(3,4)
    have "Settled i (Fulfilled (Some (ABORT h))) x \<in> set (since (afterModule j c r p (settles p) s) s')"
      by (auto simp: step)
    from Cons.IH[OF continued(5) this] continued(3,4) show ?thesis
      by (auto simp: step)
  qed
qed

lemma requestLoop_threw:
  assumes "requestLoop h environment c ms r s = (fl, r', s')"
    and "Settled i (Rejected m) x \<in> set (since s s')"
  shows "fl = Throw (caught h i m) \<and> r' = x \<and> following (Settled i (Rejected m) x) (since s s') = []"
  using assms
proof (induction ms arbitrary: r s)
  case Nil
  then show ?case by simp
next
  case (Cons a ms)
  obtain j main where a: "a = (j, main)" by (cases a)
  from Cons.prems(1)[unfolded a] show ?case
  proof (cases rule: requestLoop_ConsE)
    case cancelled
    with Cons.prems(2) show ?thesis by simp
  next
    case (threw p m')
    with Cons.prems(2) show ?thesis by auto
  next
    case (stopped p)
    with Cons.prems(2) show ?thesis by auto
  next
    case (continued p v)
    note step = since_requestLoop[OF continued(5)]
    from Cons.prems(2) continued(3,4)
    have "Settled i (Rejected m) x \<in> set (since (afterModule j c r p (settles p) s) s')"
      by (auto simp: step)
    from Cons.IH[OF continued(5) this] continued(3,4) show ?thesis
      by (auto simp: step)
  qed
qed

lemma requestLoop_order:
  assumes "requestLoop h environment c ms r s = (fl, r', s')"
  shows "sequential None r (since s s') \<and> prefix (calledIds (since s s')) (map fst ms)
           \<and> (fl = Next \<longrightarrow> calledIds (since s s') = map fst ms)"
  using assms
proof (induction ms arbitrary: r s)
  case Nil
  then show ?case by simp
next
  case (Cons a ms)
  obtain j main where a: "a = (j, main)" by (cases a)
  from Cons.prems(1)[unfolded a] show ?case
  proof (cases rule: requestLoop_ConsE)
    case (continued p v)
    note step = since_requestLoop[OF continued(5)]
    from Cons.IH[OF continued(5)] show ?thesis
      by (simp add: step a)
  qed (simp_all add: a)
qed

lemma requestLoop_frame:
  assumes "requestLoop h environment c ms r s = (fl, r', s')"
  shows "length (controllers s') = length (controllers s) \<and> requestModules s' = requestModules s
           \<and> responseModules s' = responseModules s \<and> eventsTarget s' = eventsTarget s
           \<and> jexl s' = jexl s"
  using assms
proof (induction ms arbitrary: r s)
  case Nil
  then show ?case by simp
next
  case (Cons a ms)
  obtain j main where a: "a = (j, main)" by (cases a)
  from Cons.prems(1)[unfolded a] show ?case
  proof (cases rule: requestLoop_ConsE)
    case (continued p v)
    from Cons.IH[OF continued(5)] show ?thesis
      by simp
  qed simp_all
qed

lemma requestLoop_signals:
  assumes "requestLoop h environment c ms r s = (fl, r', s')"
  shows "set (signalsUsed (since s s')) \<subseteq> {c}"
  using assms
proof (induction ms arbitrary: r s)
  case Nil
  then show ?case by simp
next
  case (Cons a ms)
  obtain j main where a: "a = (j, main)" by (cases a)
  from Cons.prems(1)[unfolded a] show ?case
  proof (cases rule: requestLoop_ConsE)
    case (continued p v)
    note step = since_requestLoop[OF continued(5)]
    from Cons.IH[OF continued(5)] show ?thesis
      by (simp add: step)
  qed simp_all
qed

lemma requestLoop_fresh:
  assumes "requestLoop h environment c ms r s = (fl, r', s')"
    and "unregistered s c" and "\<not> aborted s c"
  shows "True \<notin> set (polls (since s s'))
           \<and> (\<forall>k. abortControllers s' k =
                 (if k \<in> set (abortCalls (since s s')) then None else abortControllers s k))"
  using assms
proof (induction ms arbitrary: r s)
  case Nil
  then show ?case by simp
next
  case (Cons a ms)
  obtain j main where a: "a = (j, main)" by (cases a)
  from Cons.prems(1)[unfolded a] show ?case
  proof (cases rule: requestLoop_ConsE)
    case cancelled
    with Cons.prems(3) show ?thesis by simp
  next
    case (continued p v)
    note step = since_requestLoop[OF continued(5)]
    from afterModule_unregistered[OF Cons.prems(2), of j c r p "settles p"] Cons.prems(3)
    have "unregistered (afterModule j c r p (settles p) s) c"
      and "\<not> aborted (afterModule j c r p (settles p) s) c"
      by simp_all
    from Cons.IH[OF continued(5) this] show ?thesis
      by (simp add: step)
  qed simp_all
qed

lemma requestLoop_registry:
  assumes "requestLoop h environment c ms r s = (Throw m, r', s')"
  shows "abortControllers s' k =
           (if k \<in> set (abortCalls (since s s')) then None else abortControllers s k)"
  using assms
proof (induction ms arbitrary: r s)
  case Nil
  then show ?case by simp
next
  case (Cons a ms)
  obtain j main where a: "a = (j, main)" by (cases a)
  from Cons.prems(1)[unfolded a] show ?case
  proof (cases rule: requestLoop_ConsE)
    case (continued p v)
    note step = since_requestLoop[OF continued(5)]
    from Cons.IH[OF continued(5)] show ?thesis
      by (simp add: step)
  qed simp_all
qed

subsection \<open>The entry points, path by path\<close>

lemma meanwhile_append: "meanwhile (a @ b) s = meanwhile b (meanwhile a s)"
  by (simp add: meanwhile_def)

lemma meanwhile_Nil [simp]: "meanwhile [] s = s"
  by (simp add: meanwhile_def)

lemma prelude_fold:
  "meanwhile ids (s\<lparr>controllers := controllers s @ [False]\<rparr>) = prelude ids s"
  "meanwhile ids (prelude ids' s) = prelude (ids' @ ids) s"
  "s\<lparr>controllers := controllers s @ [False]\<rparr> = prelude [] s"
  by (simp_all add: prelude_def meanwhile_append)

lemma prelude_simps [simp]:
  "trace (prelude ids s) = trace s @ map AbortCall ids"
  "abortControllers (prelude ids s) k = (if k \<in> set ids then None else abortControllers s k)"
  "length (controllers (prelude ids s)) = Suc (length (controllers s))"
  "eventsTarget (prelude ids s) = eventsTarget s"
  "jexl (prelude ids s) = jexl s"
  "requestModules (prelude ids s) = requestModules s"
  "responseModules (prelude ids s) = responseModules s"
  by (simp_all add: prelude_def)

lemma processRequest_E:
  assumes "processRequest h r opts s = (out, r', s')"
  obtains
    (failed) ids m where "out = Rejected m" "s' = prelude ids s"
  | (returned) ids env r0 x where
      "requestLoop h env (length (controllers s)) (requestModules s) r0 (prelude ids s) = (Return x, r', s')"
      "out = Fulfilled x"
  | (thrown) ids env r0 m where
      "requestLoop h env (length (controllers s)) (requestModules s) r0 (prelude ids s) = (Throw m, r', s')"
      "out = Rejected m"
  | (completed) ids env r0 s1 where
      "requestLoop h env (length (controllers s)) (requestModules s) r0 (prelude ids s) = (Next, r', s1)"
      "out = Fulfilled (Some r')"
      "s' = s1\<lparr>abortControllers := (abortControllers s1)(id' r' \<mapsto> length (controllers s))\<rparr>"
  using assms
  unfolding processRequest_def newAbortController_def Let_def
  by (auto simp: prelude_fold split: settled.splits flow.splits if_splits prod.splits)

lemma responsePrelude_simps [simp]:
  "trace (responsePrelude i ids s) = trace s @ map AbortCall ids"
  "abortControllers (responsePrelude i ids s) k = (if k \<in> set ids then None else abortControllers s k)"
  "eventsTarget (responsePrelude i ids s) = eventsTarget s"
  "jexl (responsePrelude i ids s) = jexl s"
  "requestModules (responsePrelude i ids s) = requestModules s"
  "responseModules (responsePrelude i ids s) = responseModules s"
  by (simp_all add: responsePrelude_def split: option.splits)

lemma responsePrelude_merge:
  "meanwhile ids (responsePrelude i ids' s) = responsePrelude i (ids' @ ids) s"
  by (simp add: responsePrelude_def meanwhile_append)

lemma responseLoop_ConsE:
  assumes "responseLoop h executed response environment c ((i, main) # ms) r s = (fl, r', s')"
  obtains
    (cancelled) "aborted s c" "fl = Return ()" "r' = r"
      "s' = (emit (Polled c True) s)\<lparr>abortControllers := (abortControllers s)(id' r := None)\<rparr>"
  | (threw) p m where "\<not> aborted s c"
      "p = fn main r executed response
             (buildExecutionContext h (eventsTarget s) (permissions main) environment) False"
      "settles p = Rejected m" "fl = Throw (caught h i m)" "r' = leaves p"
      "s' = afterModule i c r p (settles p) s"
  | (stopped) p where "\<not> aborted s c"
      "p = fn main r executed response
             (buildExecutionContext h (eventsTarget s) (permissions main) environment) False"
      "settles p = Fulfilled (Some (ABORT h))" "fl = Return ()" "r' = leaves p"
      "s' = (afterModule i c r p (settles p) s)
              \<lparr>abortControllers := (abortControllers (afterModule i c r p (settles p) s))(id' r' := None)\<rparr>"
  | (continued) p v where "\<not> aborted s c"
      "p = fn main r executed response
             (buildExecutionContext h (eventsTarget s) (permissions main) environment) False"
      "settles p = Fulfilled v" "v \<noteq> Some (ABORT h)"
      "responseLoop h executed response environment c ms (leaves p) (afterModule i c r p (settles p) s)
         = (fl, r', s')"
  using assms
  by (auto simp: Let_def executeResponseModule_def afterModule_def
      split: if_splits settled.splits)

lemma processResponse_E:
  assumes "processResponse h r executed response opts s = (out, r', s')"
  obtains
    (failed) ids m where "out = Rejected m" "s' = responsePrelude (id' r) ids s"
  | (returned) ids env r0 where
      "responseLoop h executed response env (tokenFor s (id' r)) (responseModules s) r0
         (responsePrelude (id' r) ids s) = (Return (), r', s')"
      "out = Fulfilled ()"
  | (thrown) ids env r0 m where
      "responseLoop h executed response env (tokenFor s (id' r)) (responseModules s) r0
         (responsePrelude (id' r) ids s) = (Throw m, r', s')"
      "out = Rejected m"
  | (completed) ids env r0 s1 where
      "responseLoop h executed response env (tokenFor s (id' r)) (responseModules s) r0
         (responsePrelude (id' r) ids s) = (Next, r', s1)"
      "out = Fulfilled ()"
      "s' = s1\<lparr>abortControllers := (abortControllers s1)(id' r' := None)\<rparr>"
proof -
  let ?p = "processResponseActions h r executed response (evaluateVariables opts)"
  let ?e = "currentEnvironment h (eventsTarget s)"
  let ?c = "tokenFor s (id' r)"
  let ?s0 = "responsePrelude (id' r) (aborts ?p @ aborts ?e) s"
  have start: "(case abortControllers s (id' r) of Some c \<Rightarrow> (c, s) | None \<Rightarrow> newAbortController s)
      = (?c, responsePrelude (id' r) [] s)"
    by (simp add: tokenFor_def responsePrelude_def newAbortController_def split: option.splits)
  note defs = processResponse_def start responsePrelude_merge Let_def
  show thesis
  proof (cases "settles ?p")
    case (Rejected m)
    with assms have "out = Rejected m" "s' = responsePrelude (id' r) (aborts ?p) s"
      by (simp_all add: defs)
    then show thesis by (rule failed)
  next
    case p: (Fulfilled u)
    show thesis
    proof (cases "settles ?e")
      case (Rejected m)
      with assms p have "out = Rejected m" "s' = ?s0"
        by (simp_all add: defs)
      then show thesis by (rule failed)
    next
      case e: (Fulfilled env)
      obtain fl r1 s1 where
        loop: "responseLoop h executed response env ?c (responseModules s) (leaves ?p) ?s0 = (fl, r1, s1)"
        by (rule prod_cases3)
      show thesis
      proof (cases fl)
        case (Return x)
        with assms p e loop have "out = Fulfilled ()" "r1 = r'" "s1 = s'"
          by (simp_all add: defs)
        with loop Return show thesis
          by (auto intro: returned)
      next
        case (Throw m)
        with assms p e loop have "out = Rejected m" "r1 = r'" "s1 = s'"
          by (simp_all add: defs)
        with loop Throw show thesis
          by (auto intro: thrown)
      next
        case Next
        with assms p e loop have "out = Fulfilled ()" "r1 = r'"
          "s' = s1\<lparr>abortControllers := (abortControllers s1)(id' r' := None)\<rparr>"
          by (auto simp: defs)
        with loop Next show thesis
          by (auto intro: completed)
      qed
    qed
  qed
qed

subsection \<open>The response loop\<close>

lemma halted_aborts [simp]: "halted a (map AbortCall ids @ t) = halted a t"
  by (induction ids) auto

lemma responseLoop_trace:
  "responseLoop h executed response environment c ms r s = (fl, r', s') \<Longrightarrow> \<exists>t. trace s' = trace s @ t"
proof (induction ms arbitrary: r s)
  case Nil
  then show ?case by simp
next
  case (Cons a ms)
  obtain i main where a: "a = (i, main)" by (cases a)
  from Cons.prems show ?case unfolding a
  proof (cases rule: responseLoop_ConsE)
    case (continued p v)
    from Cons.IH[OF continued(5)] show ?thesis by auto
  qed auto
qed

lemma since_responseLoop:
  assumes "responseLoop h executed response environment c ms r1 (afterModule i c r p out s) = (fl, r', s')"
  shows "since s s' = Polled c False # Called i c r # map AbortCall (aborts p) @
           Settled i out (leaves p) # since (afterModule i c r p out s) s'"
proof -
  from responseLoop_trace[OF assms] obtain t where t: "trace s' = trace (afterModule i c r p out s) @ t"
    by blast
  then have "trace s' = trace s @
      (Polled c False # Called i c r # map AbortCall (aborts p) @ Settled i out (leaves p) # t)"
    by simp
  from since_append[OF this] since_append[OF t] show ?thesis
    by simp
qed

lemma responseLoop_stopped:
  assumes "responseLoop h executed response environment c ms r s = (fl, r', s')"
    and "Settled i (Fulfilled (Some (ABORT h))) x \<in> set (since s s')"
  shows "fl = Return () \<and> r' = x \<and> following (Settled i (Fulfilled (Some (ABORT h))) x) (since s s') = []"
  using assms
proof (induction ms arbitrary: r s)
  case Nil
  then show ?case by simp
next
  case (Cons a ms)
  obtain j main where a: "a = (j, main)" by (cases a)
  from Cons.prems(1)[unfolded a] show ?case
  proof (cases rule: responseLoop_ConsE)
    case cancelled
    with Cons.prems(2) show ?thesis by simp
  next
    case (threw p m)
    with Cons.prems(2) show ?thesis by auto
  next
    case (stopped p)
    with Cons.prems(2) show ?thesis by auto
  next
    case (continued p v)
    note step = since_responseLoop[OF continued(5)]
    from Cons.prems(2) continued(3,4)
    have "Settled i (Fulfilled (Some (ABORT h))) x \<in> set (since (afterModule j c r p (settles p) s) s')"
      by (auto simp: step)
    from Cons.IH[OF continued(5) this] continued(3,4) show ?thesis
      by (auto simp: step)
  qed
qed

lemma responseLoop_threw:
  assumes "responseLoop h executed response environment c ms r s = (fl, r', s')"
    and "Settled i (Rejected m) x \<in> set (since s s')"
  shows "fl = Throw (caught h i m) \<and> r' = x \<and> following (Settled i (Rejected m) x) (since s s') = []"
  using assms
proof (induction ms arbitrary: r s)
  case Nil
  then show ?case by simp
next
  case (Cons a ms)
  obtain j main where a: "a = (j, main)" by (cases a)
  from Cons.prems(1)[unfolded a] show ?case
  proof (cases rule: responseLoop_ConsE)
    case cancelled
    with Cons.prems(2) show ?thesis by simp
  next
    case (threw p m')
    with Cons.prems(2) show ?thesis by auto
  next
    case (stopped p)
    with Cons.prems(2) show ?thesis by auto
  next
    case (continued p v)
    note step = since_responseLoop[OF continued(5)]
    from Cons.prems(2) continued(3,4)
    have "Settled i (Rejected m) x \<in> set (since (afterModule j c r p (settles p) s) s')"
      by (auto simp: step)
    from Cons.IH[OF continued(5) this] continued(3,4) show ?thesis
      by (auto simp: step)
  qed
qed

lemma responseLoop_order:
  assumes "responseLoop h executed response environment c ms r s = (fl, r', s')"
  shows "sequential None r (since s s') \<and> prefix (calledIds (since s s')) (map fst ms)
           \<and> (fl = Next \<longrightarrow> calledIds (since s s') = map fst ms)"
  using assms
proof (induction ms arbitrary: r s)
  case Nil
  then show ?case by simp
next
  case (Cons a ms)
  obtain j main where a: "a = (j, main)" by (cases a)
  from Cons.prems(1)[unfolded a] show ?case
  proof (cases rule: responseLoop_ConsE)
    case (continued p v)
    note step = since_responseLoop[OF continued(5)]
    from Cons.IH[OF continued(5)] show ?thesis
      by (simp add: step a)
  qed (simp_all add: a)
qed

lemma responseLoop_frame:
  assumes "responseLoop h executed response environment c ms r s = (fl, r', s')"
  shows "length (controllers s') = length (controllers s) \<and> requestModules s' = requestModules s
           \<and> responseModules s' = responseModules s \<and> eventsTarget s' = eventsTarget s
           \<and> jexl s' = jexl s"
  using assms
proof (induction ms arbitrary: r s)
  case Nil
  then show ?case by simp
next
  case (Cons a ms)
  obtain j main where a: "a = (j, main)" by (cases a)
  from Cons.prems(1)[unfolded a] show ?case
  proof (cases rule: responseLoop_ConsE)
    case (continued p v)
    from Cons.IH[OF continued(5)] show ?thesis
      by simp
  qed simp_all
qed

subsection \<open>Runs of the entry points\<close>

text \<open>Either a collaborator rejects before the loop starts, or the loop runs from the state
  that the calls of \<open>abort\<close> made so far have produced.\<close>

lemma since_trans:
  assumes "trace s1 = trace s @ t" and "\<exists>u. trace s2 = trace s1 @ u"
  shows "since s s2 = t @ since s1 s2"
proof -
  from assms(2) obtain u where u: "trace s2 = trace s1 @ u" by blast
  with assms(1) have "trace s2 = trace s @ (t @ u)" by simp
  from since_append[OF this] since_append[OF u] show ?thesis by simp
qed

lemma since_prelude [simp]: "since s (prelude ids s) = map AbortCall ids"
  by (simp add: since_def)

lemma since_responsePrelude [simp]: "since s (responsePrelude i ids s) = map AbortCall ids"
  by (simp add: since_def)

lemma processRequest_run:
  assumes "processRequest h r opts s = (out, r', s')"
  obtains
    (failed) ids m where "out = Rejected m" "s' = prelude ids s"
  | (looped) ids env r0 fl s1 where
      "requestLoop h env (length (controllers s)) (requestModules s) r0 (prelude ids s) = (fl, r', s1)"
      "since s s' = map AbortCall ids @ since (prelude ids s) s1"
      "out = (case fl of Return x \<Rightarrow> Fulfilled x | Throw m \<Rightarrow> Rejected m | Next \<Rightarrow> Fulfilled (Some r'))"
      "s' = (case fl of
               Next \<Rightarrow> s1\<lparr>abortControllers := (abortControllers s1)(id' r' \<mapsto> length (controllers s))\<rparr>
             | _ \<Rightarrow> s1)"
  using assms
proof (cases rule: processRequest_E)
  case (failed ids m)
  then show ?thesis by (rule that(1))
next
  case (returned ids env r0 x)
  from since_trans[OF _ requestLoop_trace[OF returned(1)], of s "map AbortCall ids"] returned
  show ?thesis by (intro that(2)[OF returned(1)]) simp_all
next
  case (thrown ids env r0 m)
  from since_trans[OF _ requestLoop_trace[OF thrown(1)], of s "map AbortCall ids"] thrown
  show ?thesis by (intro that(2)[OF thrown(1)]) simp_all
next
  case (completed ids env r0 s1)
  from since_trans[OF _ requestLoop_trace[OF completed(1)], of s "map AbortCall ids"] completed
  show ?thesis by (intro that(2)[OF completed(1)]) simp_all
qed

lemma processResponse_run:
  assumes "processResponse h r executed response opts s = (out, r', s')"
  obtains
    (failed) ids m where "out = Rejected m" "s' = responsePrelude (id' r) ids s"
  | (looped) ids env r0 fl s1 where
      "responseLoop h executed response env (tokenFor s (id' r)) (responseModules s) r0
         (responsePrelude (id' r) ids s) = (fl, r', s1)"
      "since s s' = map AbortCall ids @ since (responsePrelude (id' r) ids s) s1"
      "out = (case fl of Throw m \<Rightarrow> Rejected m | _ \<Rightarrow> Fulfilled ())"
      "s' = (case fl of
               Next \<Rightarrow> s1\<lparr>abortControllers := (abortControllers s1)(id' r' := None)\<rparr>
             | _ \<Rightarrow> s1)"
  using assms
proof (cases rule: processResponse_E)
  case (failed ids m)
  then show ?thesis by (rule that(1))
next
  case (returned ids env r0)
  from since_trans[OF _ responseLoop_trace[OF returned(1)], of s "map AbortCall ids"] returned
  show ?thesis by (intro that(2)[OF returned(1)]) simp_all
next
  case (thrown ids env r0 m)
  from since_trans[OF _ responseLoop_trace[OF thrown(1)], of s "map AbortCall ids"] thrown
  show ?thesis by (intro that(2)[OF thrown(1)]) simp_all
next
  case (completed ids env r0 s1)
  from since_trans[OF _ responseLoop_trace[OF completed(1)], of s "map AbortCall ids"] completed
  show ?thesis by (intro that(2)[OF completed(1)]) simp_all
qed

lemma processRequest_stopped:
  assumes run: "processRequest h r opts s = (out, r', s')"
    and mem: "Settled i (Fulfilled (Some (ABORT h))) x \<in> set (since s s')"
  shows "out = Fulfilled None \<and> r' = x
           \<and> following (Settled i (Fulfilled (Some (ABORT h))) x) (since s s') = []"
  using run
proof (cases rule: processRequest_run)
  case (failed ids m)
  with mem show ?thesis by auto
next
  case (looped ids env r0 fl s1)
  from mem looped(2)
  have "Settled i (Fulfilled (Some (ABORT h))) x \<in> set (since (prelude ids s) s1)"
    by auto
  from requestLoop_stopped[OF looped(1) this] looped(2,3) show ?thesis
    by simp
qed

lemma processResponse_stopped:
  assumes run: "processResponse h r executed response opts s = (out, r', s')"
    and mem: "Settled i (Fulfilled (Some (ABORT h))) x \<in> set (since s s')"
  shows "out = Fulfilled () \<and> r' = x
           \<and> following (Settled i (Fulfilled (Some (ABORT h))) x) (since s s') = []"
  using run
proof (cases rule: processResponse_run)
  case (failed ids m)
  with mem show ?thesis by auto
next
  case (looped ids env r0 fl s1)
  from mem looped(2)
  have "Settled i (Fulfilled (Some (ABORT h))) x \<in> set (since (responsePrelude (id' r) ids s) s1)"
    by auto
  from responseLoop_stopped[OF looped(1) this] looped(2,3) show ?thesis
    by simp
qed

lemma processRequest_threw:
  assumes run: "processRequest h r opts s = (out, r', s')"
    and mem: "Settled i (Rejected m) x \<in> set (since s s')"
  shows "out = Rejected (caught h i m) \<and> r' = x
           \<and> following (Settled i (Rejected m) x) (since s s') = []
           \<and> (\<forall>k. abortControllers s' k =
                 (if k \<in> set (abortCalls (since s s')) then None else abortControllers s k))"
  using run
proof (cases rule: processRequest_run)
  case (failed ids m)
  with mem show ?thesis by auto
next
  case (looped ids env r0 fl s1)
  from mem looped(2)
  have "Settled i (Rejected m) x \<in> set (since (prelude ids s) s1)"
    by auto
  from requestLoop_threw[OF looped(1) this]
  have fl: "fl = Throw (caught h i m)" and rest: "r' = x"
    "following (Settled i (Rejected m) x) (since (prelude ids s) s1) = []"
    by simp_all
  from looped(1) fl requestLoop_registry
  have "\<And>k. abortControllers s1 k =
      (if k \<in> set (abortCalls (since (prelude ids s) s1)) then None
       else abortControllers (prelude ids s) k)"
    by blast
  with fl rest looped(2,3,4) show ?thesis
    by simp
qed

lemma processResponse_threw:
  assumes run: "processResponse h r executed response opts s = (out, r', s')"
    and mem: "Settled i (Rejected m) x \<in> set (since s s')"
  shows "out = Rejected (caught h i m) \<and> r' = x
           \<and> following (Settled i (Rejected m) x) (since s s') = []"
  using run
proof (cases rule: processResponse_run)
  case (failed ids m)
  with mem show ?thesis by auto
next
  case (looped ids env r0 fl s1)
  from mem looped(2)
  have "Settled i (Rejected m) x \<in> set (since (responsePrelude (id' r) ids s) s1)"
    by auto
  from responseLoop_threw[OF looped(1) this] looped(2,3) show ?thesis
    by simp
qed

subsection \<open>Completion, order and the fresh controller\<close>

lemma sequential_only_aborts [simp]: "sequential cur r (map AbortCall ids) = (cur = None)"
  by (induction ids) auto

lemma halted_only_aborts [simp]: "halted a (map AbortCall ids) = False"
  by (induction ids) auto

lemma requestLoop_Return:
  "requestLoop h environment c ms r s = (fl, r', s') \<Longrightarrow> fl \<noteq> Return (Some y)"
proof (induction ms arbitrary: r s)
  case Nil
  then show ?case by auto
next
  case (Cons a ms)
  obtain j main where a: "a = (j, main)" by (cases a)
  from Cons.prems(1)[unfolded a] show ?case
  proof (cases rule: requestLoop_ConsE)
    case (continued p v)
    from Cons.IH[OF continued(5)] show ?thesis .
  qed simp_all
qed

lemma requestLoop_unhalted:
  assumes "requestLoop h environment c ms r s = (fl, r', s')"
    and "\<not> halted (ABORT h) (since s s')"
  shows "fl = Next"
  using assms
proof (induction ms arbitrary: r s)
  case Nil
  then show ?case by simp
next
  case (Cons a ms)
  obtain j main where a: "a = (j, main)" by (cases a)
  from Cons.prems(1)[unfolded a] show ?case
  proof (cases rule: requestLoop_ConsE)
    case (continued p v)
    note step = since_requestLoop[OF continued(5)]
    from Cons.prems(2) have "\<not> halted (ABORT h) (since (afterModule j c r p (settles p) s) s')"
      by (simp add: step)
    from Cons.IH[OF continued(5) this] show ?thesis .
  qed (use Cons.prems(2) in simp_all)
qed

lemma responseLoop_unhalted:
  assumes "responseLoop h executed response environment c ms r s = (fl, r', s')"
    and "\<not> halted (ABORT h) (since s s')"
  shows "fl = Next"
  using assms
proof (induction ms arbitrary: r s)
  case Nil
  then show ?case by simp
next
  case (Cons a ms)
  obtain j main where a: "a = (j, main)" by (cases a)
  from Cons.prems(1)[unfolded a] show ?case
  proof (cases rule: responseLoop_ConsE)
    case (continued p v)
    note step = since_responseLoop[OF continued(5)]
    from Cons.prems(2) have "\<not> halted (ABORT h) (since (afterModule j c r p (settles p) s) s')"
      by (simp add: step)
    from Cons.IH[OF continued(5) this] show ?thesis .
  qed (use Cons.prems(2) in simp_all)
qed

lemma responseLoop_ended:
  "responseLoop h executed response environment c ms r s = (Return u, r', s') \<Longrightarrow>
     abortControllers s' (id' r') = None"
proof (induction ms arbitrary: r s)
  case Nil
  then show ?case by simp
next
  case (Cons a ms)
  obtain j main where a: "a = (j, main)" by (cases a)
  from Cons.prems(1)[unfolded a] show ?case
  proof (cases rule: responseLoop_ConsE)
    case (continued p v)
    from Cons.IH[OF continued(5)] show ?thesis .
  qed simp_all
qed

lemma requestLoop_shrinks:
  assumes "requestLoop h environment c ms r s = (fl, r', s')"
    and "abortControllers s' k = Some d"
  shows "abortControllers s k = Some d"
  using assms
proof (induction ms arbitrary: r s)
  case Nil
  then show ?case by simp
next
  case (Cons a ms)
  obtain j main where a: "a = (j, main)" by (cases a)
  from Cons.prems(1)[unfolded a] show ?case
  proof (cases rule: requestLoop_ConsE)
    case (continued p v)
    from Cons.IH[OF continued(5) Cons.prems(2)] show ?thesis
      by (simp split: if_splits)
  qed (use Cons.prems(2) in \<open>simp_all split: if_splits\<close>)
qed

lemma responseLoop_shrinks:
  assumes "responseLoop h executed response environment c ms r s = (fl, r', s')"
    and "abortControllers s' k = Some d"
  shows "abortControllers s k = Some d"
  using assms
proof (induction ms arbitrary: r s)
  case Nil
  then show ?case by simp
next
  case (Cons a ms)
  obtain j main where a: "a = (j, main)" by (cases a)
  from Cons.prems(1)[unfolded a] show ?case
  proof (cases rule: responseLoop_ConsE)
    case (continued p v)
    from Cons.IH[OF continued(5) Cons.prems(2)] show ?thesis
      by (simp split: if_splits)
  qed (use Cons.prems(2) in \<open>simp_all split: if_splits\<close>)
qed

lemma prelude_fresh:
  assumes "wellFormed s"
  shows "unregistered (prelude ids s) (length (controllers s))
           \<and> \<not> aborted (prelude ids s) (length (controllers s))"
proof -
  let ?s0 = "s\<lparr>controllers := controllers s @ [False]\<rparr>"
  from assms have "unregistered ?s0 (length (controllers s))"
    by (auto simp: wellFormed_def unregistered_def)
  moreover have "\<not> aborted ?s0 (length (controllers s))"
    by (simp add: aborted_def)
  ultimately show ?thesis
    using meanwhile_unregistered[of ?s0 "length (controllers s)" ids]
    by (simp add: prelude_def)
qed

lemma processRequest_order:
  assumes run: "processRequest h r opts s = (out, r', s')"
  shows "prefix (calledIds (since s s')) (map fst (requestModules s))
           \<and> (\<exists>r0. sequential None r0 (since s s'))
           \<and> (out = Fulfilled (Some y) \<longrightarrow> calledIds (since s s') = map fst (requestModules s))
           \<and> requestModules s' = requestModules s \<and> responseModules s' = responseModules s"
  using run
proof (cases rule: processRequest_run)
  case (failed ids m)
  then show ?thesis by simp
next
  case (looped ids env r0 fl s1)
  from requestLoop_order[OF looped(1)] requestLoop_frame[OF looped(1)]
    requestLoop_Return[OF looped(1), of y] looped(2,3,4)
  show ?thesis
    by (cases fl) auto
qed

lemma processResponse_order:
  assumes run: "processResponse h r executed response opts s = (out, r', s')"
  shows "prefix (calledIds (since s s')) (map fst (responseModules s))
           \<and> (\<exists>r0. sequential None r0 (since s s'))
           \<and> (out = Fulfilled () \<and> \<not> halted (ABORT h) (since s s') \<longrightarrow>
                 calledIds (since s s') = map fst (responseModules s))
           \<and> requestModules s' = requestModules s \<and> responseModules s' = responseModules s"
  using run
proof (cases rule: processResponse_run)
  case (failed ids m)
  then show ?thesis by simp
next
  case (looped ids env r0 fl s1)
  from responseLoop_order[OF looped(1)] responseLoop_frame[OF looped(1)]
    responseLoop_unhalted[OF looped(1)] looped(2,3,4)
  show ?thesis
    by (cases fl) auto
qed

lemma processRequest_fresh:
  assumes run: "processRequest h r opts s = (out, r', s')"
  shows "length (controllers s') = Suc (length (controllers s))
           \<and> set (signalsUsed (since s s')) \<subseteq> {length (controllers s)}
           \<and> (out = Fulfilled (Some y) \<longrightarrow> abortControllers s' (id' r') = Some (length (controllers s)))
           \<and> (wellFormed s \<longrightarrow> True \<notin> set (polls (since s s')))"
  using run
proof (cases rule: processRequest_run)
  case (failed ids m)
  then show ?thesis by simp
next
  case (looped ids env r0 fl s1)
  have "wellFormed s \<longrightarrow> True \<notin> set (polls (since (prelude ids s) s1))"
    using requestLoop_fresh[OF looped(1)] prelude_fresh[of s ids] by blast
  with requestLoop_signals[OF looped(1)] requestLoop_frame[OF looped(1)]
    requestLoop_Return[OF looped(1), of y] looped(2,3,4)
  show ?thesis
    by (cases fl) auto
qed

lemma responseLoop_signals:
  assumes "responseLoop h executed response environment c ms r s = (fl, r', s')"
  shows "set (signalsUsed (since s s')) \<subseteq> {c}"
  using assms
proof (induction ms arbitrary: r s)
  case Nil
  then show ?case by simp
next
  case (Cons a ms)
  obtain j main where a: "a = (j, main)" by (cases a)
  from Cons.prems(1)[unfolded a] show ?case
  proof (cases rule: responseLoop_ConsE)
    case (continued p v)
    note step = since_responseLoop[OF continued(5)]
    from Cons.IH[OF continued(5)] show ?thesis
      by (simp add: step)
  qed simp_all
qed

lemma processResponse_signals:
  assumes run: "processResponse h r executed response opts s = (out, r', s')"
  shows "set (signalsUsed (since s s')) \<subseteq> {tokenFor s (id' r)}"
  using run
proof (cases rule: processResponse_run)
  case (failed ids m)
  then show ?thesis by simp
next
  case (looped ids env r0 fl s1)
  with responseLoop_signals[OF looped(1)] show ?thesis
    by simp
qed

lemma processResponse_ends_token:
  assumes run: "processResponse h r executed response opts s = (Fulfilled u, r', s')"
  shows "abortControllers s' (id' r') = None"
  using run
proof (cases rule: processResponse_run)
  case (failed ids m)
  then show ?thesis by simp
next
  case (looped ids env r0 fl s1)
  then show ?thesis
    by (cases fl) (auto dest: responseLoop_ended)
qed

subsection \<open>The registry refers to controllers that exist\<close>

text \<open>This holds for a new factory and every operation keeps it.\<close>

lemma abort_wellFormed: "wellFormed s \<Longrightarrow> wellFormed (abort i s)"
  by (auto simp: wellFormed_def)

lemma processRequest_wellFormed:
  assumes run: "processRequest h r opts s = (out, r', s')" and "wellFormed s"
  shows "wellFormed s'"
proof -
  from \<open>wellFormed s\<close> have weak: "\<And>k d. abortControllers s k = Some d \<Longrightarrow> d < Suc (length (controllers s))"
    unfolding wellFormed_def by (blast intro: less_SucI)
  from run show ?thesis
  proof (cases rule: processRequest_run)
    case (failed ids m)
    with weak show ?thesis
      by (auto simp: wellFormed_def split: if_splits)
  next
    case (looped ids env r0 fl s1)
    have len: "length (controllers s1) = Suc (length (controllers s))"
      using requestLoop_frame[OF looped(1)] by simp
    have "abortControllers s k = Some d" if "abortControllers s1 k = Some d" for k d
      using requestLoop_shrinks[OF looped(1) that] by (simp split: if_splits)
    with weak len looped(4) show ?thesis
      by (cases fl) (auto simp: wellFormed_def split: if_splits)
  qed
qed

lemma responsePrelude_length [simp]:
  "length (controllers (responsePrelude i ids s)) =
     (case abortControllers s i of Some c \<Rightarrow> length (controllers s)
      | None \<Rightarrow> Suc (length (controllers s)))"
  by (simp add: responsePrelude_def split: option.splits)

lemma newFactory_wellFormed: "wellFormed (newFactory req resp)"
  by (simp add: wellFormed_def newFactory_def)

lemma processResponse_wellFormed:
  assumes run: "processResponse h r executed response opts s = (out, r', s')" and "wellFormed s"
  shows "wellFormed s'"
proof -
  from \<open>wellFormed s\<close> have weak: "\<And>k d. abortControllers s k = Some d \<Longrightarrow> d < length (controllers s)"
    unfolding wellFormed_def by blast
  from run show ?thesis
  proof (cases rule: processResponse_run)
    case (failed ids m)
    have "d < length (controllers s')" if "abortControllers s' k = Some d" for k d
    proof -
      from that failed have "abortControllers s k = Some d"
        by (simp split: if_splits)
      from weak[OF this] failed show ?thesis
        by (simp split: option.splits)
    qed
    then show ?thesis
      by (simp add: wellFormed_def)
  next
    case (looped ids env r0 fl s1)
    have le: "length (controllers s) \<le> length (controllers s1)"
      using responseLoop_frame[OF looped(1)] by (simp split: option.splits)
    have inner: "d < length (controllers s1)" if "abortControllers s1 k = Some d" for k d
    proof -
      from responseLoop_shrinks[OF looped(1) that] have "abortControllers s k = Some d"
        by (simp split: if_splits)
      from weak[OF this] le show ?thesis
        by simp
    qed
    from looped(4) show ?thesis
      by (cases fl) (auto simp: wellFormed_def split: if_splits dest: inner)
  qed
qed

subsection \<open>The pipelines against the runner of the specification\<close>

lemma calls_append [simp]: "calls (t @ u) = calls t @ calls u"
  by (induction t rule: calls.induct) auto

lemma settlements_append [simp]: "settlements (t @ u) = settlements t @ settlements u"
  by (induction t rule: settlements.induct) auto

lemma calls_aborts [simp]: "calls (map AbortCall ids) = []"
  by (induction ids) auto

lemma settlements_aborts [simp]: "settlements (map AbortCall ids) = []"
  by (induction ids) auto

lemma requestLoop_dispatch:
  assumes "requestLoop h environment c ms r s = (fl, r', s')"
    and "unregistered s c" and "\<not> aborted s c"
  shows "calls (since s s') =
           map called (dispatch (ABORT h) (invokeRequest h (eventsTarget s) environment) ms r)
       \<and> settlements (since s s') =
           map settlement (dispatch (ABORT h) (invokeRequest h (eventsTarget s) environment) ms r)
       \<and> r' = leftBy r (dispatch (ABORT h) (invokeRequest h (eventsTarget s) environment) ms r)"
  using assms
proof (induction ms arbitrary: r s)
  case Nil
  then show ?case by simp
next
  case (Cons a ms)
  obtain j main where a: "a = (j, main)" by (cases a)
  from Cons.prems(1)[unfolded a] show ?case
  proof (cases rule: requestLoop_ConsE)
    case cancelled
    with Cons.prems(3) show ?thesis by simp
  next
    case (threw p m)
    from threw(2) have p: "invokeRequest h (eventsTarget s) environment main r = p"
      by (simp add: invokeRequest_def)
    from threw(3,5,6) show ?thesis
      by (simp add: a p)
  next
    case (stopped p)
    from stopped(2) have p: "invokeRequest h (eventsTarget s) environment main r = p"
      by (simp add: invokeRequest_def)
    from stopped(3,5,6) show ?thesis
      by (simp add: a p)
  next
    case (continued p v)
    note step = since_requestLoop[OF continued(5)]
    from continued(2) have p: "invokeRequest h (eventsTarget s) environment main r = p"
      by (simp add: invokeRequest_def)
    from afterModule_unregistered[OF Cons.prems(2), of j c r p "settles p"] Cons.prems(3)
    have "unregistered (afterModule j c r p (settles p) s) c"
      and "\<not> aborted (afterModule j c r p (settles p) s) c"
      by simp_all
    from Cons.IH[OF continued(5) this] continued(3,4) show ?thesis
      by (simp add: step a p)
  qed
qed

lemma responseLoop_dispatch:
  assumes "responseLoop h executed response environment c ms r s = (fl, r', s')"
  shows "prefix (calls (since s s'))
           (map called (dispatch (ABORT h)
              (invokeResponse h (eventsTarget s) executed response environment) ms r))
       \<and> prefix (settlements (since s s'))
           (map settlement (dispatch (ABORT h)
              (invokeResponse h (eventsTarget s) executed response environment) ms r))
       \<and> (True \<notin> set (polls (since s s')) \<longrightarrow>
            calls (since s s') =
              map called (dispatch (ABORT h)
                (invokeResponse h (eventsTarget s) executed response environment) ms r)
          \<and> settlements (since s s') =
              map settlement (dispatch (ABORT h)
                (invokeResponse h (eventsTarget s) executed response environment) ms r)
          \<and> r' = leftBy r (dispatch (ABORT h)
                (invokeResponse h (eventsTarget s) executed response environment) ms r))"
  using assms
proof (induction ms arbitrary: r s)
  case Nil
  then show ?case by simp
next
  case (Cons a ms)
  obtain j main where a: "a = (j, main)" by (cases a)
  from Cons.prems(1)[unfolded a] show ?case
  proof (cases rule: responseLoop_ConsE)
    case cancelled
    then show ?thesis by simp
  next
    case (threw p m)
    from threw(2) have p: "invokeResponse h (eventsTarget s) executed response environment main r = p"
      by (simp add: invokeResponse_def)
    from threw(3,5,6) show ?thesis
      by (simp add: a p)
  next
    case (stopped p)
    from stopped(2) have p: "invokeResponse h (eventsTarget s) executed response environment main r = p"
      by (simp add: invokeResponse_def)
    from stopped(3,5,6) show ?thesis
      by (simp add: a p)
  next
    case (continued p v)
    note step = since_responseLoop[OF continued(5)]
    from continued(2) have p: "invokeResponse h (eventsTarget s) executed response environment main r = p"
      by (simp add: invokeResponse_def)
    from Cons.IH[OF continued(5)] continued(3,4) show ?thesis
      by (simp add: step a p)
  qed
qed

lemma responseLoop_undisturbed:
  assumes "responseLoop h executed response environment c ms r s = (fl, r', s')"
    and "abortCalls (since s s') = []" and "\<not> aborted s c"
  shows "True \<notin> set (polls (since s s'))"
  using assms
proof (induction ms arbitrary: r s)
  case Nil
  then show ?case by simp
next
  case (Cons a ms)
  obtain j main where a: "a = (j, main)" by (cases a)
  from Cons.prems(1)[unfolded a] show ?case
  proof (cases rule: responseLoop_ConsE)
    case cancelled
    with Cons.prems(3) show ?thesis by simp
  next
    case (continued p v)
    note step = since_responseLoop[OF continued(5)]
    from Cons.prems(2) have quiet: "aborts p = []"
      "abortCalls (since (afterModule j c r p (settles p) s) s') = []"
      by (simp_all add: step)
    with Cons.prems(3) have "\<not> aborted (afterModule j c r p (settles p) s) c"
      by (simp add: afterModule_def)
    from Cons.IH[OF continued(5) quiet(2) this] show ?thesis
      by (simp add: step)
  qed simp_all
qed


lemma processRequest_fulfilled:
  assumes "processRequest h r opts s = (out, r', s')"
    and "settles (processRequestActions h r (evaluateVariables opts)) = Fulfilled u1"
    and "settles (currentEnvironment h (eventsTarget s)) = Fulfilled env"
    and "evaluateVariables opts \<noteq> Some False \<Longrightarrow>
           settles (processorEvaluateVariables h (jexl s) env
             (leaves (processRequestActions h r (evaluateVariables opts)))) = Fulfilled u2"
    and "r0 = (if evaluateVariables opts \<noteq> Some False
               then leaves (processorEvaluateVariables h (jexl s) env
                      (leaves (processRequestActions h r (evaluateVariables opts))))
               else leaves (processRequestActions h r (evaluateVariables opts)))"
  obtains
    (returned) ids x where
      "requestLoop h env (length (controllers s)) (requestModules s) r0 (prelude ids s) = (Return x, r', s')"
      "out = Fulfilled x"
  | (thrown) ids m where
      "requestLoop h env (length (controllers s)) (requestModules s) r0 (prelude ids s) = (Throw m, r', s')"
      "out = Rejected m"
  | (completed) ids s1 where
      "requestLoop h env (length (controllers s)) (requestModules s) r0 (prelude ids s) = (Next, r', s1)"
      "out = Fulfilled (Some r')"
      "s' = s1\<lparr>abortControllers := (abortControllers s1)(id' r' \<mapsto> length (controllers s))\<rparr>"
  using assms
  unfolding processRequest_def newAbortController_def Let_def
  by (auto simp: prelude_fold split: settled.splits flow.splits if_splits prod.splits)

lemma processRequest_dispatch:
  assumes run: "processRequest h r opts s = (out, r', s')"
    and "wellFormed s"
    and "settles (processRequestActions h r (evaluateVariables opts)) = Fulfilled u1"
    and "settles (currentEnvironment h (eventsTarget s)) = Fulfilled env"
    and "evaluateVariables opts \<noteq> Some False \<Longrightarrow>
           settles (processorEvaluateVariables h (jexl s) env
             (leaves (processRequestActions h r (evaluateVariables opts)))) = Fulfilled u2"
    and r0: "r0 = (if evaluateVariables opts \<noteq> Some False
               then leaves (processorEvaluateVariables h (jexl s) env
                      (leaves (processRequestActions h r (evaluateVariables opts))))
               else leaves (processRequestActions h r (evaluateVariables opts)))"
  shows "calls (since s s') =
           map called (dispatch (ABORT h) (invokeRequest h (eventsTarget s) env) (requestModules s) r0)
       \<and> settlements (since s s') =
           map settlement (dispatch (ABORT h) (invokeRequest h (eventsTarget s) env) (requestModules s) r0)
       \<and> r' = leftBy r0 (dispatch (ABORT h) (invokeRequest h (eventsTarget s) env) (requestModules s) r0)"
proof -
  have main: ?thesis
    if loop: "requestLoop h env (length (controllers s)) (requestModules s) r0 (prelude ids s)
        = (fl, r', s1)"
      and tr: "since s s' = since s s1" for ids fl s1
  proof -
    from since_trans[OF _ requestLoop_trace[OF loop], of s "map AbortCall ids"]
    have "since s s1 = map AbortCall ids @ since (prelude ids s) s1"
      by simp
    with tr requestLoop_dispatch[OF loop] prelude_fresh[OF \<open>wellFormed s\<close>, of ids]
    show ?thesis
      by simp
  qed
  show ?thesis
  proof (rule processRequest_fulfilled[OF assms(1) assms(3) assms(4) assms(5) r0])
    fix ids x
    assume "requestLoop h env (length (controllers s)) (requestModules s) r0 (prelude ids s)
      = (Return x, r', s')"
    from main[OF this] show ?thesis by simp
  next
    fix ids m
    assume "requestLoop h env (length (controllers s)) (requestModules s) r0 (prelude ids s)
      = (Throw m, r', s')"
    from main[OF this] show ?thesis by simp
  next
    fix ids s1
    assume "requestLoop h env (length (controllers s)) (requestModules s) r0 (prelude ids s)
      = (Next, r', s1)"
      and "s' = s1\<lparr>abortControllers := (abortControllers s1)(id' r' \<mapsto> length (controllers s))\<rparr>"
    from main[OF this(1)] this(2) show ?thesis by simp
  qed
qed


lemma processResponse_fulfilled:
  assumes run: "processResponse h r executed response opts s = (out, r', s')"
    and pa: "settles (processResponseActions h r executed response (evaluateVariables opts))
        = Fulfilled u1"
    and e: "settles (currentEnvironment h (eventsTarget s)) = Fulfilled env"
  obtains fl s1 where
    "responseLoop h executed response env (tokenFor s (id' r)) (responseModules s)
       (leaves (processResponseActions h r executed response (evaluateVariables opts)))
       (responsePrelude (id' r)
          (aborts (processResponseActions h r executed response (evaluateVariables opts))
            @ aborts (currentEnvironment h (eventsTarget s))) s) = (fl, r', s1)"
    "since s s' = since s s1"
proof -
  let ?p = "processResponseActions h r executed response (evaluateVariables opts)"
  let ?e = "currentEnvironment h (eventsTarget s)"
  let ?c = "tokenFor s (id' r)"
  let ?s0 = "responsePrelude (id' r) (aborts ?p @ aborts ?e) s"
  have start: "(case abortControllers s (id' r) of Some c \<Rightarrow> (c, s) | None \<Rightarrow> newAbortController s)
      = (?c, responsePrelude (id' r) [] s)"
    by (simp add: tokenFor_def responsePrelude_def newAbortController_def split: option.splits)
  note defs = processResponse_def start responsePrelude_merge Let_def
  obtain fl r1 s1 where
    loop: "responseLoop h executed response env ?c (responseModules s) (leaves ?p) ?s0 = (fl, r1, s1)"
    by (rule prod_cases3)
  have "r1 = r' \<and> since s s' = since s s1"
  proof (cases fl)
    case (Return x)
    with run pa e loop show ?thesis by (auto simp: defs)
  next
    case (Throw m)
    with run pa e loop show ?thesis by (auto simp: defs)
  next
    case Next
    with run pa e loop show ?thesis by (auto simp: defs)
  qed
  with loop that show thesis
    by blast
qed

lemma processResponse_dispatch:
  assumes run: "processResponse h r executed response opts s = (out, r', s')"
    and pa: "settles (processResponseActions h r executed response (evaluateVariables opts))
        = Fulfilled u1"
    and e: "settles (currentEnvironment h (eventsTarget s)) = Fulfilled env"
    and r0: "r0 = leaves (processResponseActions h r executed response (evaluateVariables opts))"
    and d: "d = dispatch (ABORT h) (invokeResponse h (eventsTarget s) executed response env)
                  (responseModules s) r0"
  shows "prefix (calls (since s s')) (map called d)
       \<and> prefix (settlements (since s s')) (map settlement d)
       \<and> (True \<notin> set (polls (since s s')) \<longrightarrow>
            calls (since s s') = map called d \<and> settlements (since s s') = map settlement d
            \<and> r' = leftBy r0 d)
       \<and> (abortCalls (since s s') = []
            \<and> (\<forall>c. abortControllers s (id' r) = Some c \<longrightarrow> \<not> aborted s c)
          \<longrightarrow> True \<notin> set (polls (since s s')))"
proof -
  define ids where "ids = aborts (processResponseActions h r executed response (evaluateVariables opts))
            @ aborts (currentEnvironment h (eventsTarget s))"
  define s0 where "s0 = responsePrelude (id' r) ids s"
  from processResponse_fulfilled[OF run pa e] obtain fl s1 where
    loop: "responseLoop h executed response env (tokenFor s (id' r)) (responseModules s) r0 s0
      = (fl, r', s1)"
    and tr: "since s s' = since s s1"
    unfolding r0 s0_def ids_def by blast
  have "trace s0 = trace s @ map AbortCall ids" and target: "eventsTarget s0 = eventsTarget s"
    by (simp_all add: s0_def)
  from since_trans[OF this(1) responseLoop_trace[OF loop]]
  have split: "since s s' = map AbortCall ids @ since s0 s1"
    by (simp add: tr)
  have quiet: "True \<notin> set (polls (since s s'))"
    if "abortCalls (since s s') = []"
      and ok: "\<forall>c. abortControllers s (id' r) = Some c \<longrightarrow> \<not> aborted s c"
  proof -
    from that(1) split have "ids @ abortCalls (since s0 s1) = []"
      by simp
    then have ids: "ids = []" and rest: "abortCalls (since s0 s1) = []"
      by simp_all
    from ok have "\<not> aborted (responsePrelude (id' r) [] s) (tokenFor s (id' r))"
      by (auto simp: responsePrelude_def tokenFor_def aborted_def split: option.splits)
    with ids have "\<not> aborted s0 (tokenFor s (id' r))"
      by (simp add: s0_def)
    from responseLoop_undisturbed[OF loop rest this] split show ?thesis
      by simp
  qed
  from responseLoop_dispatch[OF loop] split quiet show ?thesis
    unfolding d target by auto
qed

lemma processRequest_unhalted:
  assumes run: "processRequest h r opts s = (out, r', s')"
    and "settles (processRequestActions h r (evaluateVariables opts)) = Fulfilled u1"
    and "settles (currentEnvironment h (eventsTarget s)) = Fulfilled env"
    and "evaluateVariables opts \<noteq> Some False \<Longrightarrow>
           settles (processorEvaluateVariables h (jexl s) env
             (leaves (processRequestActions h r (evaluateVariables opts)))) = Fulfilled u2"
    and quiet: "\<not> halted (ABORT h) (since s s')"
  shows "calledIds (since s s') = map fst (requestModules s)"
proof -
  have main: ?thesis
    if loop: "requestLoop h env (length (controllers s)) (requestModules s) r0 (prelude ids s)
        = (fl, r', s1)"
      and tr: "since s s' = since s s1" for ids fl s1 r0
  proof -
    from since_trans[OF _ requestLoop_trace[OF loop], of s "map AbortCall ids"]
    have split: "since s s1 = map AbortCall ids @ since (prelude ids s) s1"
      by simp
    with quiet tr have "\<not> halted (ABORT h) (since (prelude ids s) s1)"
      by simp
    from requestLoop_unhalted[OF loop this] requestLoop_order[OF loop] split tr
    show ?thesis
      by simp
  qed
  show ?thesis
  proof (rule processRequest_fulfilled[OF assms(1) assms(2) assms(3) assms(4) refl])
    fix ids x
    assume "requestLoop h env (length (controllers s)) (requestModules s)
        (if evaluateVariables opts \<noteq> Some False
         then leaves (processorEvaluateVariables h (jexl s) env
                (leaves (processRequestActions h r (evaluateVariables opts))))
         else leaves (processRequestActions h r (evaluateVariables opts)))
        (prelude ids s) = (Return x, r', s')"
    from main[OF this] show ?thesis by simp
  next
    fix ids m
    assume "requestLoop h env (length (controllers s)) (requestModules s)
        (if evaluateVariables opts \<noteq> Some False
         then leaves (processorEvaluateVariables h (jexl s) env
                (leaves (processRequestActions h r (evaluateVariables opts))))
         else leaves (processRequestActions h r (evaluateVariables opts)))
        (prelude ids s) = (Throw m, r', s')"
    from main[OF this] show ?thesis by simp
  next
    fix ids s1
    assume "requestLoop h env (length (controllers s)) (requestModules s)
        (if evaluateVariables opts \<noteq> Some False
         then leaves (processorEvaluateVariables h (jexl s) env
                (leaves (processRequestActions h r (evaluateVariables opts))))
         else leaves (processRequestActions h r (evaluateVariables opts)))
        (prelude ids s) = (Next, r', s1)"
      and "s' = s1\<lparr>abortControllers := (abortControllers s1)(id' r' \<mapsto> length (controllers s))\<rparr>"
    from main[OF this(1)] this(2) show ?thesis by simp
  qed
qed

lemma processResponse_unhalted:
  assumes run: "processResponse h r executed response opts s = (out, r', s')"
    and pa: "settles (processResponseActions h r executed response (evaluateVariables opts))
        = Fulfilled u1"
    and e: "settles (currentEnvironment h (eventsTarget s)) = Fulfilled env"
    and quiet: "\<not> halted (ABORT h) (since s s')"
  shows "calledIds (since s s') = map fst (responseModules s)"
proof -
  define ids where "ids = aborts (processResponseActions h r executed response (evaluateVariables opts))
            @ aborts (currentEnvironment h (eventsTarget s))"
  define s0 where "s0 = responsePrelude (id' r) ids s"
  from processResponse_fulfilled[OF run pa e] obtain fl s1 where
    loop: "responseLoop h executed response env (tokenFor s (id' r)) (responseModules s)
      (leaves (processResponseActions h r executed response (evaluateVariables opts))) s0
      = (fl, r', s1)"
    and tr: "since s s' = since s s1"
    unfolding s0_def ids_def by blast
  have "trace s0 = trace s @ map AbortCall ids"
    by (simp add: s0_def)
  from since_trans[OF this responseLoop_trace[OF loop]]
  have split: "since s s' = map AbortCall ids @ since s0 s1"
    by (simp add: tr)
  with quiet have "\<not> halted (ABORT h) (since s0 s1)"
    by simp
  from responseLoop_unhalted[OF loop this] responseLoop_order[OF loop] split
  show ?thesis
    by simp
qed

subsection \<open>Evaluation of a run on concrete inputs\<close>

lemmas eval_defs = processRequest_def processResponse_def executeRequestModule_def
  executeResponseModule_def newAbortController_def meanwhile_def abort_def emit_def aborted_def
  Let_def sampleHost_def interruptedHost_def sampleRequest_def noOptions_def newFactory_def
  busyFactory_def marking_def vetoing_def failing_def throwingNull_def throwingText_def
  cancelling_def failingResponse_def markingResponse_def vetoingResponse_def since_def

section \<open>The execution context\<close>

text \<open>
  C2. For every permission list and environment, the context holds exactly the fields the
  permissions imply: \<open>eventsTarget\<close> always; \<open>environment\<close> (the environment passed in)
  iff \<open>environment\<close> is granted; \<open>Events\<close> iff \<open>events\<close> is granted; \<open>Store\<close> iff
  \<open>store\<close> is granted, and then with its \<open>Environment\<close> and \<open>Variable\<close> entries iff
  \<open>environment\<close> is granted too. With no permission the context holds \<open>eventsTarget\<close>
  alone.
\<close>

theorem context_fields_follow_permissions:
  "ownKeys (buildExecutionContext h t p e) =
      [''eventsTarget''] @ (if ''environment'' \<in> set p then [''environment''] else [])
        @ (if ''events'' \<in> set p then [''Events''] else [])
        @ (if ''store'' \<in> set p then [''Store''] else [])
   \<and> getProperty (buildExecutionContext h t p e) ''eventsTarget'' = Some t
   \<and> getProperty (buildExecutionContext h t p e) ''environment'' =
        (if ''environment'' \<in> set p then Some e else None)
   \<and> getProperty (buildExecutionContext h t p e) ''Events'' =
        (if ''events'' \<in> set p then Some (prepareExecutionEvents h) else None)
   \<and> getProperty (buildExecutionContext h t p e) ''Store'' =
        (if ''store'' \<in> set p then Some (prepareExecutionStore h (''environment'' \<in> set p)) else None)
   \<and> ownKeys (prepareExecutionStore h b) =
        [''AuthData'', ''ClientCertificate'', ''HostRules'', ''Project'', ''Request'', ''RestApi'',
         ''UrlHistory'', ''UrlIndexer'', ''WSUrlHistory'']
        @ (if b then [''Environment'', ''Variable''] else [])
   \<and> ownKeys (buildExecutionContext h t [] e) = [''eventsTarget'']"
  by (simp add: buildExecutionContext_def prepareExecutionStore_def Let_def)

theorem context_fields_follow_permissions_witness:
  "ownKeys (buildExecutionContext sampleHost (JPrim ''window'') [''store''] sampleEnvironment) =
     [''eventsTarget'', ''Store'']
   \<and> (case getProperty (buildExecutionContext sampleHost (JPrim ''window'') [''store''] sampleEnvironment)
         ''Store'' of
         None \<Rightarrow> False
       | Some store \<Rightarrow> ''Environment'' \<notin> set (ownKeys store) \<and> ''Variable'' \<notin> set (ownKeys store))"
  using context_fields_follow_permissions
    [of sampleHost "JPrim ''window''" "[''store'']" sampleEnvironment False]
  by simp

text \<open>
  C8, as the specification states it: nothing reachable from the context can be added,
  removed or reassigned. It fails on the environment data, which is put into the context
  as it is: with the \<open>environment\<close> permission, a module can reassign a field of the
  environment.
\<close>

theorem context_not_deeply_frozen:
  "mutateAt (buildExecutionContext sampleHost (JPrim ''window'') [''environment''] sampleEnvironment)
     [''environment''] (Assign ''name'' (JPrim ''changed''))
   = Some (JObj [(''eventsTarget'', JPrim ''window''),
                 (''environment'', JObj [(''name'', JPrim ''changed'')] False)] True)"
  by (simp add: buildExecutionContext_def sampleEnvironment_def Let_def)

text \<open>
  C8, amended: the objects that the builder creates are frozen, each by itself: no
  property of the context, of its \<open>Events\<close> bundle or of its \<open>Store\<close> bundle can be
  added, removed or reassigned. (The values the properties refer to are not frozen by the
  builder.)
\<close>

theorem context_bundles_frozen:
  "isFrozen (buildExecutionContext h t p e)
   \<and> isFrozen (prepareExecutionEvents h) \<and> isFrozen (prepareExecutionStore h b)
   \<and> mutateAt (buildExecutionContext h t p e) [] m = None
   \<and> mutateAt (buildExecutionContext h t p e) [''Events''] m = None
   \<and> mutateAt (buildExecutionContext h t p e) [''Store''] m = None"
  by (cases m)
    (simp_all add: buildExecutionContext_def prepareExecutionEvents_def prepareExecutionStore_def
      Let_def)

section \<open>The pipelines\<close>

text \<open>
  In the statements below a run is an equation \<open>processRequest h r opts s = (out, r', s')\<close>:
  \<open>out\<close> is how the promise settled, \<open>r'\<close> what the request object holds at the end,
  \<open>s'\<close> the state at the end, and \<open>since s s'\<close> what was observed during the call. They
  hold for all collaborators and modules, whatever these return, throw or write, and
  whichever calls of \<open>abort\<close> are made while they are pending.
\<close>

subsection \<open>Order of dispatch\<close>

text \<open>
  C7. In both pipelines the modules called are, in order, an initial part of the
  registered list, and all of it when \<open>processRequest\<close> resolves to the request
  (respectively when \<open>processResponse\<close> resolves and nothing halted its loop); every call
  settles before the loop does anything else, each module being called on the request as
  its predecessor left it; and both registered lists are the same after the call as before.

  Moreover, when the collaborators called before the loop fulfil, the invocations are
  exactly those of the specification's runner (\<open>dispatch\<close>) on the registered list: the
  same modules in the same order, each invoked with its own function on the request its
  predecessor left and settling as that function does, up to and including the first
  module that throws or returns \<open>ABORT\<close>. For \<open>processRequest\<close> this holds in every
  \<open>wellFormed\<close> state. For \<open>processResponse\<close> the invocations are an initial part of
  the runner's, and all of them unless the loop saw its signal aborted, which it does not
  when \<open>abort\<close> is not called during the call and the token registered for the request,
  if any, is not aborted. In both, when nothing halts the loop every registered module is
  called.
\<close>

theorem modules_run_in_registration_order:
  "(processRequest h r opts s = (out, r', s')
    \<longrightarrow> prefix (calledIds (since s s')) (map fst (requestModules s))
        \<and> (\<exists>r0. sequential None r0 (since s s'))
        \<and> (out = Fulfilled (Some y) \<longrightarrow> calledIds (since s s') = map fst (requestModules s))
        \<and> requestModules s' = requestModules s \<and> responseModules s' = responseModules s
        \<and> (settles (processRequestActions h r (evaluateVariables opts)) = Fulfilled ()
             \<and> settles (currentEnvironment h (eventsTarget s)) = Fulfilled env
             \<and> (evaluateVariables opts \<noteq> Some False \<longrightarrow>
                  settles (processorEvaluateVariables h (jexl s) env
                    (leaves (processRequestActions h r (evaluateVariables opts)))) = Fulfilled ())
             \<and> r0 = (if evaluateVariables opts \<noteq> Some False
                      then leaves (processorEvaluateVariables h (jexl s) env
                             (leaves (processRequestActions h r (evaluateVariables opts))))
                      else leaves (processRequestActions h r (evaluateVariables opts)))
             \<and> d = dispatch (ABORT h) (invokeRequest h (eventsTarget s) env) (requestModules s) r0
            \<longrightarrow> (wellFormed s \<longrightarrow>
                   calls (since s s') = map called d
                   \<and> settlements (since s s') = map settlement d
                   \<and> r' = leftBy r0 d)
                \<and> (\<not> halted (ABORT h) (since s s') \<longrightarrow>
                     calledIds (since s s') = map fst (requestModules s))))
   \<and> (processResponse h r executed response opts s = (out2, r2, s2)
    \<longrightarrow> prefix (calledIds (since s s2)) (map fst (responseModules s))
        \<and> (\<exists>r0. sequential None r0 (since s s2))
        \<and> (out2 = Fulfilled () \<and> \<not> halted (ABORT h) (since s s2) \<longrightarrow>
              calledIds (since s s2) = map fst (responseModules s))
        \<and> requestModules s2 = requestModules s \<and> responseModules s2 = responseModules s
        \<and> (settles (processResponseActions h r executed response (evaluateVariables opts))
               = Fulfilled ()
             \<and> settles (currentEnvironment h (eventsTarget s)) = Fulfilled env2
             \<and> q0 = leaves (processResponseActions h r executed response (evaluateVariables opts))
             \<and> d2 = dispatch (ABORT h) (invokeResponse h (eventsTarget s) executed response env2)
                      (responseModules s) q0
            \<longrightarrow> prefix (calls (since s s2)) (map called d2)
                \<and> prefix (settlements (since s s2)) (map settlement d2)
                \<and> (True \<notin> set (polls (since s s2)) \<longrightarrow>
                     calls (since s s2) = map called d2
                     \<and> settlements (since s s2) = map settlement d2
                     \<and> r2 = leftBy q0 d2)
                \<and> (abortCalls (since s s2) = []
                     \<and> (\<forall>c. abortControllers s (id' r) = Some c \<longrightarrow> \<not> aborted s c)
                    \<longrightarrow> True \<notin> set (polls (since s s2)))
                \<and> (\<not> halted (ABORT h) (since s s2) \<longrightarrow>
                     calledIds (since s s2) = map fst (responseModules s))))"
proof -
  have request: "wellFormed s \<longrightarrow>
      calls (since s s') = map called d \<and> settlements (since s s') = map settlement d
      \<and> r' = leftBy r0 d"
    if "processRequest h r opts s = (out, r', s')"
      and "settles (processRequestActions h r (evaluateVariables opts)) = Fulfilled ()"
      and "settles (currentEnvironment h (eventsTarget s)) = Fulfilled env"
      and "evaluateVariables opts \<noteq> Some False \<longrightarrow>
             settles (processorEvaluateVariables h (jexl s) env
               (leaves (processRequestActions h r (evaluateVariables opts)))) = Fulfilled ()"
      and "r0 = (if evaluateVariables opts \<noteq> Some False
                 then leaves (processorEvaluateVariables h (jexl s) env
                        (leaves (processRequestActions h r (evaluateVariables opts))))
                 else leaves (processRequestActions h r (evaluateVariables opts)))"
      and "d = dispatch (ABORT h) (invokeRequest h (eventsTarget s) env) (requestModules s) r0"
    using processRequest_dispatch[OF that(1) _ that(2) that(3) that(4)[rule_format] that(5)] that(6)
    by blast
  have all: "\<not> halted (ABORT h) (since s s') \<longrightarrow>
      calledIds (since s s') = map fst (requestModules s)"
    if "processRequest h r opts s = (out, r', s')"
      and "settles (processRequestActions h r (evaluateVariables opts)) = Fulfilled ()"
      and "settles (currentEnvironment h (eventsTarget s)) = Fulfilled env"
      and "evaluateVariables opts \<noteq> Some False \<longrightarrow>
             settles (processorEvaluateVariables h (jexl s) env
               (leaves (processRequestActions h r (evaluateVariables opts)))) = Fulfilled ()"
    using processRequest_unhalted[OF that(1) that(2) that(3) that(4)[rule_format]]
    by blast
  have response: "prefix (calls (since s s2)) (map called d2)
      \<and> prefix (settlements (since s s2)) (map settlement d2)
      \<and> (True \<notin> set (polls (since s s2)) \<longrightarrow>
           calls (since s s2) = map called d2 \<and> settlements (since s s2) = map settlement d2
           \<and> r2 = leftBy q0 d2)
      \<and> (abortCalls (since s s2) = []
           \<and> (\<forall>c. abortControllers s (id' r) = Some c \<longrightarrow> \<not> aborted s c)
          \<longrightarrow> True \<notin> set (polls (since s s2)))
      \<and> (\<not> halted (ABORT h) (since s s2) \<longrightarrow>
           calledIds (since s s2) = map fst (responseModules s))"
    if "processResponse h r executed response opts s = (out2, r2, s2)"
      and "settles (processResponseActions h r executed response (evaluateVariables opts))
             = Fulfilled ()"
      and "settles (currentEnvironment h (eventsTarget s)) = Fulfilled env2"
      and "q0 = leaves (processResponseActions h r executed response (evaluateVariables opts))"
      and "d2 = dispatch (ABORT h) (invokeResponse h (eventsTarget s) executed response env2)
                  (responseModules s) q0"
    using processResponse_dispatch[OF that(1) that(2) that(3) that(4) that(5)]
      processResponse_unhalted[OF that(1) that(2) that(3)]
    by blast
  from request all response
    processRequest_order[of h r opts s out r' s' y]
    processResponse_order[of h r executed response opts s out2 r2 s2]
  show ?thesis
    by blast
qed

text \<open>
  Three request modules that all continue are invoked in order, each on the request the
  one before it left. Of four response modules the third returns \<open>ABORT\<close>: the first
  three are invoked in order, the fourth is not.
\<close>

theorem modules_run_in_registration_order_witness:
  "(let s = newFactory [(''m1'', marking ''a''), (''m2'', marking ''b''), (''m3'', marking ''c'')] [];
        (out, r', s') = processRequest sampleHost sampleRequest noOptions s
    in wellFormed s \<and> \<not> halted (ABORT sampleHost) (since s s')
       \<and> calledIds (since s s') = [''m1'', ''m2'', ''m3'']
       \<and> map fst (calls (since s s')) = [''m1'', ''m2'', ''m3'']
       \<and> map (ownKeys \<circ> request \<circ> snd) (calls (since s s')) =
            [[''url''], [''url'', ''a''], [''url'', ''a'', ''b'']]
       \<and> ownKeys (request r') = [''url'', ''a'', ''b'', ''c''])
   \<and> (let s = newFactory []
              [(''n1'', markingResponse ''a''), (''n2'', markingResponse ''b''),
               (''n3'', vetoingResponse), (''n4'', failingResponse)];
        (out, r', s') = processResponse sampleHost sampleRequest (JPrim ''sent'') (JPrim ''received'')
                          noOptions s
    in abortCalls (since s s') = [] \<and> abortControllers s (id' sampleRequest) = None
       \<and> map fst (calls (since s s')) = [''n1'', ''n2'', ''n3'']
       \<and> map fst (settlements (since s s')) = [''n1'', ''n2'', ''n3'']
       \<and> ownKeys (request r') = [''url'', ''a'', ''b''])"
proof -
  let ?s = "newFactory [(''m1'', marking ''a''), (''m2'', marking ''b''), (''m3'', marking ''c'')] []"
  let ?P = "processRequest sampleHost sampleRequest noOptions ?s"
  let ?d = "dispatch (ABORT sampleHost) (invokeRequest sampleHost (eventsTarget ?s) sampleEnvironment)
              (requestModules ?s) sampleRequest"
  let ?t = "newFactory []
              [(''n1'', markingResponse ''a''), (''n2'', markingResponse ''b''),
               (''n3'', vetoingResponse), (''n4'', failingResponse)]"
  let ?Q = "processResponse sampleHost sampleRequest (JPrim ''sent'') (JPrim ''received'') noOptions ?t"
  let ?e = "dispatch (ABORT sampleHost)
              (invokeResponse sampleHost (eventsTarget ?t) (JPrim ''sent'') (JPrim ''received'')
                 sampleEnvironment)
              (responseModules ?t) sampleRequest"
  have p: "?P = (fst ?P, fst (snd ?P), snd (snd ?P))"
    by simp
  have w: "wellFormed ?s"
    by (simp add: wellFormed_def newFactory_def)
  have ph: "\<not> halted (ABORT sampleHost) (since ?s (snd (snd ?P)))"
    by (simp add: eval_defs)
  have c1: "settles (processRequestActions sampleHost sampleRequest (evaluateVariables noOptions))
      = Fulfilled ()"
    and c2: "settles (currentEnvironment sampleHost (eventsTarget ?s)) = Fulfilled sampleEnvironment"
    and c3: "evaluateVariables noOptions \<noteq> Some False \<longrightarrow>
      settles (processorEvaluateVariables sampleHost (jexl ?s) sampleEnvironment
        (leaves (processRequestActions sampleHost sampleRequest (evaluateVariables noOptions))))
      = Fulfilled ()"
    and c4: "sampleRequest =
      (if evaluateVariables noOptions \<noteq> Some False
       then leaves (processorEvaluateVariables sampleHost (jexl ?s) sampleEnvironment
              (leaves (processRequestActions sampleHost sampleRequest (evaluateVariables noOptions))))
       else leaves (processRequestActions sampleHost sampleRequest (evaluateVariables noOptions)))"
    by (simp_all add: sampleHost_def noOptions_def)
  from modules_run_in_registration_order[THEN conjunct1, rule_format, OF p,
      where ?env = sampleEnvironment and ?r0.0 = sampleRequest and ?d = ?d]
    c1 c2 c3 c4 w ph
  have pc: "calls (since ?s (snd (snd ?P))) = map called ?d"
    and pl: "fst (snd ?P) = leftBy sampleRequest ?d"
    and pa: "calledIds (since ?s (snd (snd ?P))) = map fst (requestModules ?s)"
    by blast+
  have q: "?Q = (fst ?Q, fst (snd ?Q), snd (snd ?Q))"
    by simp
  have qa: "abortCalls (since ?t (snd (snd ?Q))) = []"
    by (simp add: eval_defs)
  have qn: "abortControllers ?t (id' sampleRequest) = None"
    by (simp add: newFactory_def)
  have k1: "settles (processResponseActions sampleHost sampleRequest (JPrim ''sent'')
      (JPrim ''received'') (evaluateVariables noOptions)) = Fulfilled ()"
    and k2: "settles (currentEnvironment sampleHost (eventsTarget ?t)) = Fulfilled sampleEnvironment"
    and k3: "sampleRequest = leaves (processResponseActions sampleHost sampleRequest (JPrim ''sent'')
      (JPrim ''received'') (evaluateVariables noOptions))"
    by (simp_all add: sampleHost_def noOptions_def)
  from modules_run_in_registration_order[THEN conjunct2, rule_format, OF q,
      where ?env2.0 = sampleEnvironment and ?q0.0 = sampleRequest and ?d2.0 = ?e]
    k1 k2 k3 qa qn
  have qc: "calls (since ?t (snd (snd ?Q))) = map called ?e"
    and qs: "settlements (since ?t (snd (snd ?Q))) = map settlement ?e"
    and ql: "fst (snd ?Q) = leftBy sampleRequest ?e"
    by (simp_all del: map_map)
  have d: "?d =
      [(''m1'', sampleRequest, Fulfilled None,
        sampleRequest\<lparr>request := setField ''a'' (JPrim ''seen'') (request sampleRequest)\<rparr>),
       (''m2'', sampleRequest\<lparr>request := setField ''a'' (JPrim ''seen'') (request sampleRequest)\<rparr>,
        Fulfilled None,
        sampleRequest\<lparr>request := setField ''b'' (JPrim ''seen'')
          (setField ''a'' (JPrim ''seen'') (request sampleRequest))\<rparr>),
       (''m3'', sampleRequest\<lparr>request := setField ''b'' (JPrim ''seen'')
          (setField ''a'' (JPrim ''seen'') (request sampleRequest))\<rparr>,
        Fulfilled None,
        sampleRequest\<lparr>request := setField ''c'' (JPrim ''seen'') (setField ''b'' (JPrim ''seen'')
          (setField ''a'' (JPrim ''seen'') (request sampleRequest)))\<rparr>)]"
    by (simp add: newFactory_def invokeRequest_def marking_def sampleHost_def Let_def)
  have e: "?e =
      [(''n1'', sampleRequest, Fulfilled None,
        sampleRequest\<lparr>request := setField ''a'' (JPrim ''seen'') (request sampleRequest)\<rparr>),
       (''n2'', sampleRequest\<lparr>request := setField ''a'' (JPrim ''seen'') (request sampleRequest)\<rparr>,
        Fulfilled None,
        sampleRequest\<lparr>request := setField ''b'' (JPrim ''seen'')
          (setField ''a'' (JPrim ''seen'') (request sampleRequest))\<rparr>),
       (''n3'', sampleRequest\<lparr>request := setField ''b'' (JPrim ''seen'')
          (setField ''a'' (JPrim ''seen'') (request sampleRequest))\<rparr>,
        Fulfilled (Some 1),
        sampleRequest\<lparr>request := setField ''b'' (JPrim ''seen'')
          (setField ''a'' (JPrim ''seen'') (request sampleRequest))\<rparr>)]"
    by (simp add: newFactory_def invokeResponse_def markingResponse_def vetoingResponse_def
        sampleHost_def Let_def)
  have keys: "ownKeys (request sampleRequest) = [''url'']"
    "request sampleRequest = JObj [(''url'', JPrim ''http://localhost/'')] False"
    by (simp_all add: sampleRequest_def)
  have rm: "map fst (requestModules ?s) = [''m1'', ''m2'', ''m3'']"
    by (simp add: newFactory_def)
  show ?thesis
    unfolding Let_def split_beta
    using w ph pa[unfolded rm] qa qn
    by (simp add: pc pl qc qs ql d e keys)
qed

subsection \<open>A module returns the ABORT signal\<close>

text \<open>
  C3. If, during a call of \<open>processRequest\<close>, a module's promise fulfils with \<open>ABORT\<close>,
  then nothing is observed after that (in particular no module is called) and the call
  resolves to \<^verbatim>\<open>null\<close>. The same holds for \<open>processResponse\<close>, which then resolves,
  with no value. Neither rejects.
\<close>

theorem abort_signal_halts:
  "(processRequest h r opts s = (out, r', s')
      \<and> Settled i (Fulfilled (Some (ABORT h))) x \<in> set (since s s')
    \<longrightarrow> out = Fulfilled None
        \<and> following (Settled i (Fulfilled (Some (ABORT h))) x) (since s s') = [])
   \<and> (processResponse h r executed response opts s = (out2, r2, s2)
      \<and> Settled i (Fulfilled (Some (ABORT h))) x \<in> set (since s s2)
    \<longrightarrow> out2 = Fulfilled ()
        \<and> following (Settled i (Fulfilled (Some (ABORT h))) x) (since s s2) = [])"
  using processRequest_stopped[of h r opts s out r' s' i x]
    processResponse_stopped[of h r executed response opts s out2 r2 s2 i x]
  by blast

text \<open>
  A request pipeline and a response pipeline whose module \<open>veto\<close> returns \<open>ABORT\<close>.
\<close>

theorem abort_signal_halts_witness:
  "(let s = newFactory [(''m1'', marking ''a''), (''veto'', vetoing), (''m3'', marking ''c'')] [];
        (out, r', s') = processRequest sampleHost sampleRequest noOptions s
    in Settled ''veto'' (Fulfilled (Some (ABORT sampleHost))) r' \<in> set (since s s')
       \<and> out = Fulfilled None)
   \<and> (let s = newFactory [] [(''veto'', vetoingResponse), (''bad'', failingResponse)];
        (out, r', s') = processResponse sampleHost sampleRequest (JPrim ''sent'') (JPrim ''received'')
                          noOptions s
    in Settled ''veto'' (Fulfilled (Some (ABORT sampleHost))) r' \<in> set (since s s')
       \<and> out = Fulfilled ())"
proof -
  let ?s = "newFactory [(''m1'', marking ''a''), (''veto'', vetoing), (''m3'', marking ''c'')] []"
  let ?P = "processRequest sampleHost sampleRequest noOptions ?s"
  let ?t = "newFactory [] [(''veto'', vetoingResponse), (''bad'', failingResponse)]"
  let ?Q = "processResponse sampleHost sampleRequest (JPrim ''sent'') (JPrim ''received'') noOptions ?t"
  have p: "?P = (fst ?P, fst (snd ?P), snd (snd ?P))"
    by simp
  have pm: "Settled ''veto'' (Fulfilled (Some (ABORT sampleHost))) (fst (snd ?P))
      \<in> set (since ?s (snd (snd ?P)))"
    by (simp add: eval_defs)
  have q: "?Q = (fst ?Q, fst (snd ?Q), snd (snd ?Q))"
    by simp
  have qm: "Settled ''veto'' (Fulfilled (Some (ABORT sampleHost))) (fst (snd ?Q))
      \<in> set (since ?t (snd (snd ?Q)))"
    by (simp add: eval_defs)
  from abort_signal_halts[THEN conjunct1, rule_format, OF conjI, OF p pm]
  have "fst ?P = Fulfilled None" ..
  moreover from abort_signal_halts[THEN conjunct2, rule_format, OF conjI, OF q qm]
  have "fst ?Q = Fulfilled ()" ..
  ultimately show ?thesis
    using pm qm by (simp only: Let_def split_beta)
qed

subsection \<open>A module throws\<close>

text \<open>
  C4, as the specification states it, fails when what a module throws is \<^verbatim>\<open>null\<close> (or
  \<^verbatim>\<open>undefined\<close>): reading its \<^verbatim>\<open>message\<close> raises inside the \<^verbatim>\<open>catch\<close> block, and
  the call rejects with that \<^verbatim>\<open>TypeError\<close>, whose message does not contain the module's
  identifier.
\<close>

theorem thrown_null_loses_module_id:
  "(let s = newFactory [(''bad'', throwingNull)] [];
        (out, r', s') = processRequest sampleHost sampleRequest noOptions s
    in Settled ''bad'' (Rejected Nullish) r' \<in> set (since s s')
       \<and> out = Rejected (Error ''Cannot read properties of null'')
       \<and> \<not> sublist ''bad'' ''Cannot read properties of null'')"
proof -
  have "\<not> sublist ''bad'' ''Cannot read properties of null''"
    by (simp add: sublist_Cons_right)
  then show ?thesis
    by (simp add: eval_defs)
qed

text \<open>
  C4, amended. If, during a call of \<open>processRequest\<close> or \<open>processResponse\<close>, the promise of
  module \<open>i\<close> rejects with the value \<open>e\<close>, then nothing is observed after that (no further
  module is called), the call rejects with what the \<^verbatim>\<open>catch\<close> block makes of \<open>e\<close>, and
  the request object holds at the end what it held when the module threw: what the
  earlier modules wrote was passed on from each module to the next and is not undone.
  When \<open>e\<close> has the message \<open>m\<close>, the call rejects with an error whose message is
  \<^verbatim>\<open>Request module <i> reported error: <m>\<close>, which contains \<open>i\<close> and \<open>m\<close>; when \<open>e\<close> is
  another value that is not \<^verbatim>\<open>null\<close> or \<^verbatim>\<open>undefined\<close>, the message is
  \<^verbatim>\<open>Request module <i> reported error: undefined\<close>.
\<close>

theorem module_failure_rejects:
  "(processRequest h r opts s = (out, r', s') \<and> Settled i (Rejected e) x \<in> set (since s s')
    \<longrightarrow> out = Rejected (caught h i e)
        \<and> following (Settled i (Rejected e) x) (since s s') = []
        \<and> r' = x \<and> (\<exists>r0. sequential None r0 (since s s')))
   \<and> (processResponse h r executed response opts s = (out2, r2, s2)
      \<and> Settled i (Rejected e) x \<in> set (since s s2)
    \<longrightarrow> out2 = Rejected (caught h i e)
        \<and> following (Settled i (Rejected e) x) (since s s2) = []
        \<and> r2 = x \<and> (\<exists>r0. sequential None r0 (since s s2)))
   \<and> caught h i (Error m) = Error (''Request module '' @ i @ '' reported error: '' @ m)
   \<and> sublist i (''Request module '' @ i @ '' reported error: '' @ m)
   \<and> sublist m (''Request module '' @ i @ '' reported error: '' @ m)
   \<and> caught h i NoMessage = Error (''Request module '' @ i @ '' reported error: undefined'')"
proof -
  have "sublist m ((''Request module '' @ i @ '' reported error: '') @ m)"
    by (rule sublist_append_leftI)
  then have "sublist m (''Request module '' @ i @ '' reported error: '' @ m)"
    by simp
  moreover have "sublist i (''Request module '' @ i @ '' reported error: '' @ m)"
    by (rule sublist_appendI)
  moreover have "caught h i (Error m) = Error (''Request module '' @ i @ '' reported error: '' @ m)"
    "caught h i NoMessage = Error (''Request module '' @ i @ '' reported error: undefined'')"
    by simp_all
  ultimately show ?thesis
    using processRequest_threw[of h r opts s out r' s' i e x]
      processResponse_threw[of h r executed response opts s out2 r2 s2 i e x]
      processRequest_order[of h r opts s out r' s']
      processResponse_order[of h r executed response opts s out2 r2 s2]
    by blast
qed

text \<open>
  The second of three request modules throws an \<^verbatim>\<open>Error\<close> after the first one has written
  to the request; a response module throws an \<^verbatim>\<open>Error\<close>.
\<close>

theorem module_failure_rejects_witness:
  "(let s = newFactory [(''m1'', marking ''a''), (''bad'', failing), (''m3'', marking ''c'')] [];
        (out, r', s') = processRequest sampleHost sampleRequest noOptions s
    in Settled ''bad'' (Rejected (Error ''boom'')) r' \<in> set (since s s')
       \<and> out = Rejected (Error ''Request module bad reported error: boom'')
       \<and> request r' = JObj [(''url'', JPrim ''http://localhost/''), (''a'', JPrim ''seen'')] False)
   \<and> (let s = newFactory [] [(''bad'', failingResponse), (''veto'', vetoingResponse)];
        (out, r', s') = processResponse sampleHost sampleRequest (JPrim ''sent'') (JPrim ''received'')
                          noOptions s
    in Settled ''bad'' (Rejected (Error ''boom'')) r' \<in> set (since s s')
       \<and> out = Rejected (Error ''Request module bad reported error: boom''))"
proof -
  let ?s = "newFactory [(''m1'', marking ''a''), (''bad'', failing), (''m3'', marking ''c'')] []"
  let ?P = "processRequest sampleHost sampleRequest noOptions ?s"
  let ?t = "newFactory [] [(''bad'', failingResponse), (''veto'', vetoingResponse)]"
  let ?Q = "processResponse sampleHost sampleRequest (JPrim ''sent'') (JPrim ''received'') noOptions ?t"
  have p: "?P = (fst ?P, fst (snd ?P), snd (snd ?P))"
    by simp
  have pm: "Settled ''bad'' (Rejected (Error ''boom'')) (fst (snd ?P))
      \<in> set (since ?s (snd (snd ?P)))"
    by (simp add: eval_defs)
  have pr: "request (fst (snd ?P)) =
      JObj [(''url'', JPrim ''http://localhost/''), (''a'', JPrim ''seen'')] False"
    by (simp add: eval_defs)
  have q: "?Q = (fst ?Q, fst (snd ?Q), snd (snd ?Q))"
    by simp
  have qm: "Settled ''bad'' (Rejected (Error ''boom'')) (fst (snd ?Q))
      \<in> set (since ?t (snd (snd ?Q)))"
    by (simp add: eval_defs)
  from module_failure_rejects[THEN conjunct1, rule_format, OF conjI, OF p pm]
  have "fst ?P = Rejected (caught sampleHost ''bad'' (Error ''boom''))" ..
  moreover from module_failure_rejects[THEN conjunct2, THEN conjunct1, rule_format, OF conjI, OF q qm]
  have "fst ?Q = Rejected (caught sampleHost ''bad'' (Error ''boom''))" ..
  ultimately show ?thesis
    using pm qm pr by (simp only: Let_def split_beta) simp
qed

text \<open>
  C10. If, during a call of \<open>processRequest\<close>, a module's promise rejects, the call rejects
  and has itself written nothing to the registry: an identifier is registered at the end
  iff it was at the beginning and \<open>abort\<close> was not called with it meanwhile, and with the
  same controller. When \<open>abort\<close> was not called during the call, the registry is exactly
  as it was: no token is registered for the request by the call.
\<close>

theorem failed_request_leaves_registry:
  assumes "processRequest h r opts s = (out, r', s')"
    and "Settled i (Rejected e) x \<in> set (since s s')"
  shows "out = Rejected (caught h i e)
         \<and> (e = Error m \<longrightarrow>
               out = Rejected (Error (''Request module '' @ i @ '' reported error: '' @ m)))
         \<and> (\<forall>k. abortControllers s' k =
               (if k \<in> set (abortCalls (since s s')) then None else abortControllers s k))
         \<and> (abortCalls (since s s') = [] \<longrightarrow> abortControllers s' = abortControllers s)"
proof -
  from processRequest_threw[OF assms]
  have out: "out = Rejected (caught h i e)"
    and reg: "\<And>k. abortControllers s' k =
      (if k \<in> set (abortCalls (since s s')) then None else abortControllers s k)"
    by simp_all
  from reg have "abortCalls (since s s') = [] \<longrightarrow> abortControllers s' = abortControllers s"
    by (auto simp: fun_eq_iff)
  with out reg show ?thesis
    by simp
qed

text \<open>A factory with a token registered for \<open>r1\<close>; the second request module throws.\<close>

theorem failed_request_leaves_registry_witness:
  "(let s = busyFactory [(''m1'', marking ''a''), (''bad'', failing)] [];
        (out, r', s') = processRequest sampleHost sampleRequest noOptions s
    in Settled ''bad'' (Rejected (Error ''boom'')) r' \<in> set (since s s')
       \<and> abortCalls (since s s') = [] \<and> abortControllers s' = abortControllers s
       \<and> abortControllers s ''r1'' = Some 0)"
proof -
  let ?s = "busyFactory [(''m1'', marking ''a''), (''bad'', failing)] []"
  let ?P = "processRequest sampleHost sampleRequest noOptions ?s"
  have p: "?P = (fst ?P, fst (snd ?P), snd (snd ?P))"
    by simp
  have pm: "Settled ''bad'' (Rejected (Error ''boom'')) (fst (snd ?P))
      \<in> set (since ?s (snd (snd ?P)))"
    by (simp add: eval_defs)
  have e: "abortCalls (since ?s (snd (snd ?P))) = []" "abortControllers ?s ''r1'' = Some 0"
    by (simp_all add: eval_defs)
  from failed_request_leaves_registry[OF p pm] e(1)
  have "abortControllers (snd (snd ?P)) = abortControllers ?s"
    by blast
  with pm e show ?thesis
    by (simp only: Let_def split_beta)
qed

subsection \<open>Cancellation during the request pipeline\<close>

text \<open>
  C9. In a state whose registry refers to existing controllers only (\<open>wellFormed\<close>, which holds
  for a new factory and is kept by \<open>abort\<close>, \<open>processRequest\<close> and \<open>processResponse\<close>),
  every read of \<^verbatim>\<open>signal.aborted\<close> by the loop of \<open>processRequest\<close> gives \<open>False\<close>: the
  branch that returns \<^verbatim>\<open>null\<close> on cancellation is never taken, whatever calls of \<open>abort\<close>
  are made during the call. The controller is created by the call and is not in the
  registry before the loop has ended.
\<close>

theorem cancellation_check_never_fires:
  assumes "wellFormed s" and "processRequest h r opts s = (out, r', s')"
  shows "True \<notin> set (polls (since s s'))"
  using processRequest_fresh[OF assms(2)] assms(1) by blast

text \<open>
  A token is registered for \<open>r1\<close>; \<open>abort\<close> is called with \<open>r1\<close> during the pre-actions
  and again while the first module runs; both modules are called.
\<close>

theorem cancellation_check_never_fires_witness:
  "(let s = busyFactory [(''m1'', cancelling ''a''), (''m2'', marking ''b'')] [];
        (out, r', s') = processRequest interruptedHost sampleRequest noOptions s
    in wellFormed s \<and> abortCalls (since s s') = [''r1'', ''r1''] \<and> True \<notin> set (polls (since s s'))
       \<and> calledIds (since s s') = [''m1'', ''m2''])"
proof -
  let ?s = "busyFactory [(''m1'', cancelling ''a''), (''m2'', marking ''b'')] []"
  let ?P = "processRequest interruptedHost sampleRequest noOptions ?s"
  have p: "?P = (fst ?P, fst (snd ?P), snd (snd ?P))"
    by simp
  have w: "wellFormed ?s"
    by (simp add: wellFormed_def busyFactory_def newFactory_def)
  have e: "abortCalls (since ?s (snd (snd ?P))) = [''r1'', ''r1'']"
    "calledIds (since ?s (snd (snd ?P))) = [''m1'', ''m2'']"
    by (simp_all add: eval_defs)
  from cancellation_check_never_fires[OF w p] w e show ?thesis
    by (simp only: Let_def split_beta) simp
qed

text \<open>
  C1, evaluated. First run: \<open>abort\<close> is called with the identifier of the request while
  the pre-actions are pending, before any module runs; the module is called all the same
  and the call resolves to the request. Second run: \<open>abort\<close> is called with that
  identifier after the first of three modules has started; the second and the third are
  called all the same, the loop reads \<^verbatim>\<open>signal.aborted\<close> as \<open>False\<close> three times, and
  the call resolves to the request.
\<close>

theorem abort_during_request_is_ignored:
  "(let s = newFactory [(''m1'', marking ''a'')] [];
        (out, r', s') = processRequest interruptedHost sampleRequest noOptions s
    in since s s' =
         [AbortCall ''r1'', Polled 0 False, Called ''m1'' 0 sampleRequest,
          Settled ''m1'' (Fulfilled None) r']
       \<and> out = Fulfilled (Some r') \<and> calledIds (since s s') = [''m1''])
   \<and> (let s = newFactory [(''m1'', cancelling ''a''), (''m2'', marking ''b''), (''m3'', marking ''c'')] [];
        (out, r', s') = processRequest sampleHost sampleRequest noOptions s
    in take 3 (since s s') = [Polled 0 False, Called ''m1'' 0 sampleRequest, AbortCall ''r1'']
       \<and> calledIds (since s s') = [''m1'', ''m2'', ''m3'']
       \<and> polls (since s s') = [False, False, False]
       \<and> out = Fulfilled (Some r'))"
  by (simp add: eval_defs)

subsection \<open>The token of a pipeline\<close>

text \<open>
  C6, as the specification states it, fails: after a first \<open>processRequest\<close> has registered
  controller \<open>0\<close> for the request's identifier, still not aborted, a second
  \<open>processRequest\<close> for the same identifier creates controller \<open>1\<close>, runs its module
  with it and registers it in place of \<open>0\<close>.
\<close>

theorem registered_token_not_reused:
  "(let s0 = newFactory [(''m1'', marking ''a'')] [];
        (out1, r1, s1) = processRequest sampleHost sampleRequest noOptions s0;
        (out2, r2, s2) = processRequest sampleHost sampleRequest noOptions s1
    in abortControllers s1 (id' sampleRequest) = Some 0 \<and> \<not> aborted s1 0
       \<and> signalsUsed (since s1 s2) = [1, 1]
       \<and> length (controllers s1) = 1 \<and> length (controllers s2) = 2
       \<and> abortControllers s2 (id' sampleRequest) = Some 1)"
  by (simp add: eval_defs)

text \<open>
  C6, amended. Every call of \<open>processRequest\<close> creates one controller, the registry not
  being consulted: the signal read by the loop and handed to the modules is that of the new
  controller, which no identifier is registered with (in a \<open>wellFormed\<close> state), and when the
  call resolves to the request the new controller is registered for the request's
  identifier. It is \<open>processResponse\<close> that runs with the controller registered for the
  request's identifier when there is one, and with a new one otherwise.
\<close>

theorem fresh_token_each_request:
  "(processRequest h r opts s = (out, r', s')
    \<longrightarrow> length (controllers s') = Suc (length (controllers s))
        \<and> set (signalsUsed (since s s')) \<subseteq> {length (controllers s)}
        \<and> (out = Fulfilled (Some y) \<longrightarrow> abortControllers s' (id' r') = Some (length (controllers s)))
        \<and> (wellFormed s \<longrightarrow> unregistered s (length (controllers s))))
   \<and> (processResponse h r executed response opts s = (out2, r2, s2)
    \<longrightarrow> set (signalsUsed (since s s2))
          \<subseteq> {case abortControllers s (id' r) of Some c \<Rightarrow> c | None \<Rightarrow> length (controllers s)})"
proof -
  have "wellFormed s \<longrightarrow> unregistered s (length (controllers s))"
    by (auto simp: wellFormed_def unregistered_def)
  then show ?thesis
    using processRequest_fresh[of h r opts s out r' s' y]
      processResponse_signals[of h r executed response opts s out2 r2 s2]
    unfolding tokenFor_def by blast
qed

text \<open>
  A token is registered for \<open>r1\<close>; \<open>processRequest\<close> for \<open>r1\<close> runs with a new one.
\<close>

theorem fresh_token_each_request_witness:
  "(let s = busyFactory [(''m1'', marking ''a'')] [];
        (out, r', s') = processRequest sampleHost sampleRequest noOptions s
    in wellFormed s \<and> abortControllers s ''r1'' = Some 0 \<and> out = Fulfilled (Some r') \<and> id' r' = ''r1''
       \<and> length (controllers s') = 2 \<and> abortControllers s' ''r1'' = Some 1
       \<and> set (signalsUsed (since s s')) \<subseteq> {1} \<and> unregistered s 1)"
proof -
  let ?s = "busyFactory [(''m1'', marking ''a'')] []"
  let ?P = "processRequest sampleHost sampleRequest noOptions ?s"
  have p: "?P = (fst ?P, fst (snd ?P), snd (snd ?P))"
    by simp
  have w: "wellFormed ?s"
    by (simp add: wellFormed_def busyFactory_def newFactory_def)
  have e: "fst ?P = Fulfilled (Some (fst (snd ?P)))" "id' (fst (snd ?P)) = ''r1''"
    "abortControllers ?s ''r1'' = Some 0" "length (controllers ?s) = 1"
    by (simp_all add: eval_defs)
  from fresh_token_each_request[THEN conjunct1, rule_format, OF p] e(1) w
  have "length (controllers (snd (snd ?P))) = Suc (length (controllers ?s))"
    "set (signalsUsed (since ?s (snd (snd ?P)))) \<subseteq> {length (controllers ?s)}"
    "abortControllers (snd (snd ?P)) (id' (fst (snd ?P))) = Some (length (controllers ?s))"
    "unregistered ?s (length (controllers ?s))"
    by blast+
  with w e show ?thesis
    by (simp only: Let_def split_beta) simp
qed

text \<open>
  C5, evaluated. \<open>processRequest\<close> registers controller \<open>0\<close> for \<open>r1\<close>; the only response
  module throws; \<open>processResponse\<close> rejects and controller \<open>0\<close> is still registered for
  \<open>r1\<close>. (When \<open>processResponse\<close> resolves, no token is registered for the request's
  identifier: lemma \<open>processResponse_ends_token\<close>.)
\<close>

theorem failed_response_keeps_token:
  "(let s0 = newFactory [] [(''bad'', failingResponse)];
        (out1, r1, s1) = processRequest sampleHost sampleRequest noOptions s0;
        (out2, r2, s2) = processResponse sampleHost r1 (JPrim ''sent'') (JPrim ''received'') noOptions s1
    in out1 = Fulfilled (Some sampleRequest) \<and> abortControllers s1 ''r1'' = Some 0
       \<and> out2 = Rejected (Error ''Request module bad reported error: boom'')
       \<and> id' r2 = ''r1'' \<and> abortControllers s2 ''r1'' = Some 0)"
  by (simp add: eval_defs)

end
